theory Spec2Isabelle
  imports Main
begin

section \<open>Python string primitives used by the indexer\<close>

text \<open>
  The indexer (\<^verbatim>\<open>update_memory.py\<close>) works on Python \<^verbatim>\<open>str\<close> values. A \<^typ>\<open>string\<close>
  stands for such a value, one \<^typ>\<open>char\<close> per character, and offsets are Python
  integers (\<^typ>\<open>int\<close>), because a slice or a search accepts negative offsets and
  reads them from the end of the string.
\<close>

definition clip_index :: "nat \<Rightarrow> int \<Rightarrow> nat" where
  \<comment> \<open>A slice bound: a negative offset counts from the end, and the result is clamped
      to the range from 0 to the length.\<close>
  "clip_index n i = (if i < 0 then nat (max 0 (i + int n)) else min n (nat i))"

definition find_lo :: "nat \<Rightarrow> int \<Rightarrow> nat" where
  \<comment> \<open>The lower bound of \<^verbatim>\<open>str.find\<close>: negative offsets count from the end; an offset
      beyond the end is kept (the search is then empty).\<close>
  "find_lo n i = (if i < 0 then nat (max 0 (i + int n)) else nat i)"

definition py_slice :: "string \<Rightarrow> int \<Rightarrow> int \<Rightarrow> string" where
  \<comment> \<open>\<^verbatim>\<open>text[a:b]\<close>\<close>
  "py_slice text a b =
     (let lo = clip_index (length text) a; hi = clip_index (length text) b
      in take (hi - lo) (drop lo text))"

definition py_slice_from :: "string \<Rightarrow> int \<Rightarrow> string" where
  \<comment> \<open>\<^verbatim>\<open>text[a:]\<close>\<close>
  "py_slice_from text a = drop (clip_index (length text) a) text"

definition occurs_at :: "string \<Rightarrow> string \<Rightarrow> nat \<Rightarrow> bool" where
  "occurs_at sub text p = (take (length sub) (drop p text) = sub)"

primrec find_scan :: "string \<Rightarrow> string \<Rightarrow> nat \<Rightarrow> nat \<Rightarrow> nat option" where
  \<comment> \<open>The first of the \<open>n\<close> positions from \<open>p\<close> on at which \<open>sub\<close> occurs.\<close>
  "find_scan sub text p 0 = None"
| "find_scan sub text p (Suc n) =
     (if occurs_at sub text p then Some p else find_scan sub text (Suc p) n)"

definition py_find :: "string \<Rightarrow> string \<Rightarrow> int \<Rightarrow> int \<Rightarrow> int" where
  \<comment> \<open>\<^verbatim>\<open>text.find(sub, a, b)\<close>: the lowest offset of an occurrence of \<open>sub\<close> that lies
      wholly inside \<^verbatim>\<open>text[a:b]\<close>, or -1.\<close>
  "py_find text sub a b =
     (let lo = find_lo (length text) a; hi = clip_index (length text) b
      in case find_scan sub text lo (Suc hi - (lo + length sub)) of
           None \<Rightarrow> - 1
         | Some p \<Rightarrow> int p)"

definition is_space :: "char \<Rightarrow> bool" where
  \<comment> \<open>\<^verbatim>\<open>str.isspace\<close> on the characters below 256.\<close>
  "is_space c =
     (let k = of_char c :: nat
      in (9 \<le> k \<and> k \<le> 13) \<or> (28 \<le> k \<and> k \<le> 32) \<or> k = 133 \<or> k = 160)"

definition py_strip :: "string \<Rightarrow> string" where
  \<comment> \<open>\<^verbatim>\<open>s.strip()\<close>\<close>
  "py_strip s = rev (dropWhile is_space (rev (dropWhile is_space s)))"

section \<open>The chunker\<close>

text \<open>
  \<^verbatim>\<open>chunk_text\<close> cuts a text into chunks. Each chunk is recorded here together with
  the offsets it was sliced from and the branch of the loop that cut it; \<open>chunk_text\<close>
  itself returns the texts only.
\<close>

datatype cut = Whole | Remainder | Paragraph | Sentence | Line | Hard

record piece =
  p_start :: int
  p_stop :: int
  p_cut :: cut
  p_text :: string

datatype step = Stop piece | Continue piece int

definition chunk_step :: "string \<Rightarrow> int \<Rightarrow> int \<Rightarrow> int \<Rightarrow> step" where
  \<comment> \<open>One iteration of the \<^verbatim>\<open>while\<close> loop at cursor \<open>start\<close>: the chunk appended and,
      unless the loop breaks, the next cursor.\<close>
  "chunk_step text char_size char_overlap start =
     (let endpos = start + char_size in
      if endpos \<ge> int (length text) then
        Stop \<lparr>p_start = start, p_stop = int (length text), p_cut = Remainder,
              p_text = py_slice_from text start\<rparr>
      else
        let paragraph_break =
              py_find text ''\<newline>\<newline>'' (endpos - char_overlap) (endpos + char_overlap) in
        if paragraph_break \<noteq> - 1 then
          Continue \<lparr>p_start = start, p_stop = paragraph_break, p_cut = Paragraph,
                    p_text = py_strip (py_slice text start paragraph_break)\<rparr>
                   paragraph_break
        else
          let sentence_break =
                py_find text ''. '' (endpos - char_overlap) (endpos + char_overlap) in
          if sentence_break \<noteq> - 1 then
            Continue \<lparr>p_start = start, p_stop = sentence_break + 1, p_cut = Sentence,
                      p_text = py_strip (py_slice text start (sentence_break + 1))\<rparr>
                     (sentence_break + 1)
          else
            let line_break =
                  py_find text ''\<newline>'' (endpos - char_overlap) (endpos + char_overlap) in
            if line_break \<noteq> - 1 then
              Continue \<lparr>p_start = start, p_stop = line_break, p_cut = Line,
                        p_text = py_strip (py_slice text start line_break)\<rparr>
                       line_break
            else
              Continue \<lparr>p_start = start, p_stop = endpos, p_cut = Hard,
                        p_text = py_strip (py_slice text start endpos)\<rparr>
                       (endpos - char_overlap))"

partial_function (option) chunk_loop :: "string \<Rightarrow> int \<Rightarrow> int \<Rightarrow> int \<Rightarrow> piece list option" where
  "chunk_loop text char_size char_overlap start =
     (if start < int (length text) then
        (case chunk_step text char_size char_overlap start of
           Stop p \<Rightarrow> Some [p]
         | Continue p start' \<Rightarrow>
             Option.bind (chunk_loop text char_size char_overlap start')
               (\<lambda>chunks. Some (p # chunks)))
      else Some [])"

declare chunk_loop.simps [code]

definition chunk_pieces :: "string \<Rightarrow> int \<Rightarrow> int \<Rightarrow> piece list option" where
  "chunk_pieces text chunk_size overlap =
     (let char_size = chunk_size * 4; char_overlap = overlap * 4 in
      if int (length text) \<le> char_size then
        Some [\<lparr>p_start = 0, p_stop = int (length text), p_cut = Whole, p_text = text\<rparr>]
      else chunk_loop text char_size char_overlap 0)"

definition chunk_text :: "string \<Rightarrow> int \<Rightarrow> int \<Rightarrow> string list option" where
  \<comment> \<open>\<^verbatim>\<open>chunk_text(text, chunk_size, overlap)\<close>; \<open>None\<close> when the loop never ends.\<close>
  "chunk_text text chunk_size overlap =
     map_option (map p_text) (chunk_pieces text chunk_size overlap)"

subsection \<open>The breakpoint search as the specification words it\<close>

text \<open>
  The specification describes one step of the chunker as a search in a window centred on
  the candidate end offset \<open>cursor + targetSize\<close>: a paragraph break first, then a
  sentence break, then a line break, and a hard cut when the window holds none. The
  following definition follows these words, with the width of the window as a parameter;
  it is compared with \<open>chunk_step\<close> below.
\<close>

definition first_in_window :: "string \<Rightarrow> string \<Rightarrow> int \<Rightarrow> int \<Rightarrow> nat option" where
  "first_in_window sub text lo hi =
     List.find (\<lambda>p. int (p + length sub) \<le> hi \<and> occurs_at sub text p) [nat lo ..< nat hi]"

definition window_step :: "int \<Rightarrow> string \<Rightarrow> int \<Rightarrow> int \<Rightarrow> int \<Rightarrow> step" where
  "window_step width text char_size char_overlap start =
     (let candidate = start + char_size;
          lo = candidate - width div 2;
          hi = candidate + width div 2
      in case first_in_window ''\<newline>\<newline>'' text lo hi of
           Some b \<Rightarrow>
             Continue \<lparr>p_start = start, p_stop = int b, p_cut = Paragraph,
                       p_text = py_strip (py_slice text start (int b))\<rparr> (int b)
         | None \<Rightarrow>
        (case first_in_window ''. '' text lo hi of
           Some b \<Rightarrow>
             Continue \<lparr>p_start = start, p_stop = int b + 1, p_cut = Sentence,
                       p_text = py_strip (py_slice text start (int b + 1))\<rparr> (int b + 1)
         | None \<Rightarrow>
        (case first_in_window ''\<newline>'' text lo hi of
           Some b \<Rightarrow>
             Continue \<lparr>p_start = start, p_stop = int b, p_cut = Line,
                       p_text = py_strip (py_slice text start (int b))\<rparr> (int b)
         | None \<Rightarrow>
             Continue \<lparr>p_start = start, p_stop = candidate, p_cut = Hard,
                       p_text = py_strip (py_slice text start candidate)\<rparr>
                      (candidate - char_overlap))))"

section \<open>Chunk identifiers\<close>

text \<open>
  \<^verbatim>\<open>index_file\<close> names the vector of chunk \<open>i\<close> (counted from 0 by
  \<^verbatim>\<open>enumerate\<close>) \<^verbatim>\<open>f"{base_doc_id}-chunk-{i+1}"\<close>; \<open>str_nat\<close> is the decimal
  rendering of a natural number.
\<close>

fun str_nat :: "nat \<Rightarrow> string" where
  "str_nat n = (if n < 10 then [''0123456789'' ! n]
                else str_nat (n div 10) @ [''0123456789'' ! (n mod 10)])"
declare str_nat.simps [simp del]

definition doc_id :: "string \<Rightarrow> nat \<Rightarrow> string" where
  "doc_id base_doc_id i = base_doc_id @ ''-chunk-'' @ str_nat (i + 1)"

section \<open>Auxiliary predicates on runs of the chunker\<close>

text \<open>
  What holds of every chunk cut by the loop, and how the chunks of a run from cursor
  \<open>s\<close> follow each other. Both are used in the proofs only.
\<close>

definition piece_facts :: "string \<Rightarrow> int \<Rightarrow> int \<Rightarrow> piece \<Rightarrow> bool" where
  "piece_facts text cs co p \<longleftrightarrow>
     0 \<le> p_start p \<and> p_start p < p_stop p \<and> p_stop p \<le> int (length text) \<and>
     p_stop p \<le> p_start p + cs + co \<and>
     (p_cut p = Hard \<longrightarrow> p_stop p = p_start p + cs) \<and>
     (p_cut p = Remainder \<longrightarrow>
        p_stop p = int (length text) \<and> p_stop p - p_start p \<le> cs \<and>
        p_text p = py_slice_from text (p_start p)) \<and>
     (p_cut p \<noteq> Remainder \<longrightarrow> p_text p = py_strip (py_slice text (p_start p) (p_stop p))) \<and>
     p_cut p \<noteq> Whole"

definition covers :: "string \<Rightarrow> int \<Rightarrow> piece list \<Rightarrow> bool" where
  "covers text s ps \<longleftrightarrow>
     (s < int (length text) \<longrightarrow> ps \<noteq> [] \<and> p_start (hd ps) = s \<and> p_cut (last ps) = Remainder) \<and>
     successively (\<lambda>p q. p_start p < p_start q) ps \<and>
     successively (\<lambda>p q. p_start q \<le> p_stop p) ps \<and>
     (\<forall>k. s \<le> k \<and> k < int (length text) \<longrightarrow> (\<exists>p\<in>set ps. p_start p \<le> k \<and> k < p_stop p))"

text \<open>
  What it is for the chunks \<open>ps\<close> to cover a text with no gap: the first interval starts
  at offset 0, every interval starts at or before the end of the one before it, the last
  interval ends at the end of the text, each chunk is the slice of its interval (trimmed
  or not), and every offset of the text lies in an interval.
\<close>

definition covers_text :: "string \<Rightarrow> piece list \<Rightarrow> bool" where
  "covers_text text ps \<longleftrightarrow>
     ps \<noteq> [] \<and> p_start (hd ps) = 0 \<and> p_stop (last ps) = int (length text) \<and>
     successively (\<lambda>p q. p_start q \<le> p_stop p) ps \<and>
     (\<forall>p\<in>set ps. 0 \<le> p_start p \<and> p_start p \<le> p_stop p \<and> p_stop p \<le> int (length text) \<and>
        (p_text p = py_slice text (p_start p) (p_stop p) \<or>
         p_text p = py_strip (py_slice text (p_start p) (p_stop p)))) \<and>
     (\<forall>k\<in>{0 ..< int (length text)}. \<exists>p\<in>set ps. p_start p \<le> k \<and> k < p_stop p)"

section \<open>Paths, file types and metadata\<close>

text \<open>
  The module constants of \<^verbatim>\<open>update_memory.py\<close>, and the path functions of Python's
  \<^verbatim>\<open>os.path\<close> (POSIX) that the indexer calls.
\<close>

definition DIRECTORY_TO_INDEX :: string where
  "DIRECTORY_TO_INDEX = ''/Users/dev/code/agentconsult/app/usergroupchatcontext''"

definition CHUNK_SIZE :: int where
  "CHUNK_SIZE = 500"

definition CHUNK_OVERLAP :: int where
  "CHUNK_OVERLAP = 100"

definition EXTENSIONS_TO_INDEX :: "string list" where
  "EXTENSIONS_TO_INDEX = [''.ts'', ''.tsx'', ''.js'', ''.jsx'', ''.md'', ''.txt'', ''.css'']"

definition IGNORE_DIRS :: "string list" where
  "IGNORE_DIRS = [''.git'', ''node_modules'', ''__pycache__'']"

definition contains :: "string \<Rightarrow> string \<Rightarrow> bool" where
  \<comment> \<open>\<^verbatim>\<open>sub in s\<close>\<close>
  "contains sub s = list_ex (occurs_at sub s) [0 ..< Suc (length s)]"

definition endswith :: "string \<Rightarrow> string \<Rightarrow> bool" where
  \<comment> \<open>\<^verbatim>\<open>s.endswith(suffix)\<close>\<close>
  "endswith s suffix =
     (length suffix \<le> length s \<and> drop (length s - length suffix) s = suffix)"

definition rfind_char :: "char \<Rightarrow> string \<Rightarrow> int" where
  \<comment> \<open>\<^verbatim>\<open>s.rfind(c)\<close> for a single character: its highest offset, or -1.\<close>
  "rfind_char c s =
     (case List.find (\<lambda>i. s ! i = c) (rev [0 ..< length s]) of
        None \<Rightarrow> - 1
      | Some i \<Rightarrow> int i)"

definition basename :: "string \<Rightarrow> string" where
  "basename p = py_slice_from p (rfind_char CHR ''/'' p + 1)"

definition dirname :: "string \<Rightarrow> string" where
  "dirname p =
     (let i = rfind_char CHR ''/'' p + 1;
          head = (if i = 0 then [] else py_slice p 0 i)
      in if head \<noteq> [] \<and> head \<noteq> replicate (length head) CHR ''/''
         then rev (dropWhile (\<lambda>c. c = CHR ''/'') (rev head))
         else head)"

definition splitext :: "string \<Rightarrow> string \<times> string" where
  \<comment> \<open>The extension starts at the last dot of the last path component, unless only
      dots come before it in that component.\<close>
  "splitext p =
     (let sepIndex = rfind_char CHR ''/'' p;
          dotIndex = rfind_char CHR ''.'' p
      in if dotIndex > sepIndex \<and>
            list_ex (\<lambda>k. p ! k \<noteq> CHR ''.'') [nat (sepIndex + 1) ..< nat dotIndex]
         then (take (nat dotIndex) p, drop (nat dotIndex) p)
         else (p, []))"

fun replace_from :: "string \<Rightarrow> string \<Rightarrow> nat \<Rightarrow> string \<Rightarrow> string" where
  \<comment> \<open>The argument \<open>skip\<close> counts the characters of an occurrence still to be dropped.\<close>
  "replace_from old new skip [] = []"
| "replace_from old new (Suc skip) (c # cs) = replace_from old new skip cs"
| "replace_from old new 0 (c # cs) =
     (if take (length old) (c # cs) = old
      then new @ replace_from old new (length old - 1) cs
      else c # replace_from old new 0 cs)"

definition py_replace :: "string \<Rightarrow> string \<Rightarrow> string \<Rightarrow> string" where
  \<comment> \<open>\<^verbatim>\<open>s.replace(old, new)\<close> for a non-empty \<open>old\<close>: every occurrence, from the left,
      without overlaps.\<close>
  "py_replace s old new = replace_from old new 0 s"

definition should_index_file :: "string \<Rightarrow> bool" where
  "should_index_file file_path =
     (let ext = snd (splitext file_path) in
      if ext \<notin> set EXTENSIONS_TO_INDEX then False
      else if list_ex (\<lambda>ignore_dir. contains (''/'' @ ignore_dir @ ''/'') file_path) IGNORE_DIRS
      then False
      else True)"

definition get_relative_path :: "string \<Rightarrow> string" where
  "get_relative_path file_path =
     dropWhile (\<lambda>c. c = CHR ''/'') (py_replace file_path DIRECTORY_TO_INDEX [])"

section \<open>The world outside: files, the embedding provider, the vector store\<close>

text \<open>
  A vector holds the components of an embedding. The source has floating-point numbers
  there; the indexer only tests whether the list is empty and passes it on, so the
  components are left as integers.
\<close>

type_synonym embedding = "int list"

record metadata =
  md_file_path :: string
  md_file_name :: string
  md_directory :: string
  md_extension :: string
  md_file_type :: string
  md_last_modified :: string
  md_file_hash :: string
  md_source :: string

record chunk_metadata = metadata +
  md_chunk_index :: nat
  md_total_chunks :: nat
  md_text :: string

record vector =
  v_id :: string
  v_values :: embedding
  v_metadata :: chunk_metadata

text \<open>
  Every call to the embedding provider and to the vector store is logged with its outcome
  (\<open>True\<close> when it did not fail). The answer of a collaborator may depend on everything
  that was called before.
\<close>

datatype event =
    EmbedCall string bool
  | UpsertCall "string list" bool
  | DeleteCall "string list" bool

record world =
  get_file_hash :: "string \<Rightarrow> string"
    \<comment> \<open>the SHA-256 digest of the bytes of a file\<close>
  file_bytes :: "string \<Rightarrow> string"
    \<comment> \<open>the bytes of a file, one \<^typ>\<open>char\<close> for each byte\<close>
  decode :: "string \<Rightarrow> string \<Rightarrow> string option"
    \<comment> \<open>of a file and one of the codecs that can fail (\<^verbatim>\<open>utf-8\<close>, \<^verbatim>\<open>cp1252\<close>): the text
        read, \<open>None\<close> for \<^verbatim>\<open>UnicodeDecodeError\<close>\<close>
  last_modified :: "string \<Rightarrow> string"
    \<comment> \<open>the modification time of a file, in ISO format\<close>
  embed :: "event list \<Rightarrow> string \<Rightarrow> embedding option"
    \<comment> \<open>the provider's answer to a text, \<open>None\<close> when the call raises\<close>
  upsert_raises :: "event list \<Rightarrow> vector list \<Rightarrow> bool"
  delete_raises :: "event list \<Rightarrow> string list \<Rightarrow> string option"
    \<comment> \<open>the message of the exception of a delete call, if it raises\<close>

text \<open>
  The state a run changes: the hash file \<^verbatim>\<open>.file_hashes.json\<close> (the ledger), the
  vectors in the store, and the log of calls. The hash file is taken to be readable and
  writable; a failing call to the store leaves the store as it is.
\<close>

record state =
  hash_storage :: "string \<rightharpoonup> string"
  store :: "string \<rightharpoonup> vector"
  calls :: "event list"

definition load_file_hashes :: "state \<Rightarrow> (string \<rightharpoonup> string)" where
  "load_file_hashes st = hash_storage st"

definition save_file_hashes :: "(string \<rightharpoonup> string) \<Rightarrow> state \<Rightarrow> state" where
  "save_file_hashes file_hashes st = st\<lparr>hash_storage := file_hashes\<rparr>"

definition get_embedding :: "world \<Rightarrow> string \<Rightarrow> state \<Rightarrow> embedding option \<times> state" where
  \<comment> \<open>The outcome logged is whether \<^verbatim>\<open>index_file\<close> can use the answer: it is neither
      \<^verbatim>\<open>None\<close> nor empty.\<close>
  "get_embedding w text st =
     (let r = embed w (calls st) text
      in (r, st\<lparr>calls := calls st @ [EmbedCall text (r \<noteq> None \<and> r \<noteq> Some [])]\<rparr>))"

definition pinecone_upsert :: "world \<Rightarrow> vector list \<Rightarrow> state \<Rightarrow> bool \<times> state" where
  \<comment> \<open>\<^verbatim>\<open>pinecone_index.upsert(vectors=...)\<close>; the result is \<open>False\<close> when it raises.\<close>
  "pinecone_upsert w vectors st =
     (if upsert_raises w (calls st) vectors
      then (False, st\<lparr>calls := calls st @ [UpsertCall (map v_id vectors) False]\<rparr>)
      else (True, st\<lparr>store := fold (\<lambda>v m. m(v_id v \<mapsto> v)) vectors (store st),
                       calls := calls st @ [UpsertCall (map v_id vectors) True]\<rparr>))"

definition pinecone_delete :: "world \<Rightarrow> string list \<Rightarrow> state \<Rightarrow> state" where
  \<comment> \<open>\<^verbatim>\<open>pinecone_index.delete(ids=batch)\<close> inside its \<^verbatim>\<open>try\<close>: an exception is
      swallowed (and printed unless its message contains "not found").\<close>
  "pinecone_delete w ids st =
     (case delete_raises w (calls st) ids of
        None \<Rightarrow> st\<lparr>store := store st |` (- set ids),
                    calls := calls st @ [DeleteCall ids True]\<rparr>
      | Some e \<Rightarrow> st\<lparr>calls := calls st @ [DeleteCall ids False]\<rparr>)"

section \<open>The indexer\<close>

definition create_metadata :: "world \<Rightarrow> string \<Rightarrow> metadata" where
  "create_metadata w file_path =
     (let relative_path = get_relative_path file_path;
          file_name = basename file_path;
          file_dir = dirname relative_path;
          ext = snd (splitext file_path);
          modified_time = last_modified w file_path;
          file_type =
            (if ext \<in> set [''.ts'', ''.tsx'', ''.js'', ''.jsx''] then
               (if contains ''components'' file_path then ''component''
                else if contains ''hooks'' file_path then ''hook''
                else if contains ''context'' file_path then ''context''
                else if contains ''utils'' file_path then ''utility''
                else if contains ''services'' file_path then ''service''
                else if contains ''types'' file_path then ''type_definition''
                else ''code'')
             else if ext = ''.md'' then ''documentation''
             else if ext = ''.css'' then ''style''
             else if ext = ''.txt'' then ''text''
             else ''unknown'')
      in \<lparr>md_file_path = relative_path, md_file_name = file_name, md_directory = file_dir,
          md_extension = ext, md_file_type = file_type, md_last_modified = modified_time,
          md_file_hash = get_file_hash w file_path, md_source = ''usergroupchatcontext''\<rparr>)"

fun universal_newlines :: "string \<Rightarrow> string" where
  \<comment> \<open>What reading in text mode does to line ends: a carriage return, with the line feed
      that follows it if there is one, becomes a line feed.\<close>
  "universal_newlines (c # d # cs) =
     (if c = CHR 0x0D then
        (if d = CHR 0x0A then CHR 0x0A # universal_newlines cs
         else CHR 0x0A # universal_newlines (d # cs))
      else c # universal_newlines (d # cs))"
| "universal_newlines [c] = (if c = CHR 0x0D then [CHR 0x0A] else [c])"
| "universal_newlines [] = []"

definition open_read :: "world \<Rightarrow> string \<Rightarrow> string \<Rightarrow> string option" where
  \<comment> \<open>\<^verbatim>\<open>open(file_path, 'r', encoding=encoding).read()\<close>, \<open>None\<close> for
      \<^verbatim>\<open>UnicodeDecodeError\<close>. The codec \<^verbatim>\<open>latin-1\<close> maps every byte to the character
      with its number and cannot fail.\<close>
  "open_read w file_path encoding =
     (if encoding = ''latin-1'' then Some (universal_newlines (file_bytes w file_path))
      else decode w file_path encoding)"

fun try_encodings :: "world \<Rightarrow> string \<Rightarrow> string list \<Rightarrow> string option" where
  "try_encodings w file_path [] = None"
| "try_encodings w file_path (encoding # encodings) =
     (case open_read w file_path encoding of
        Some content \<Rightarrow> Some content
      | None \<Rightarrow> try_encodings w file_path encodings)"

definition read_file_content :: "world \<Rightarrow> string \<Rightarrow> string" where
  "read_file_content w file_path =
     (case try_encodings w file_path [''utf-8'', ''latin-1'', ''cp1252''] of
        Some content \<Rightarrow> content
      | None \<Rightarrow> [])"

fun delete_type_loop :: "string list \<Rightarrow> string \<Rightarrow> string \<Rightarrow> string" where
  \<comment> \<open>The \<^verbatim>\<open>for ext in [...]\<close> loop of \<^verbatim>\<open>delete_file_vectors\<close>, which breaks at the
      first extension the path ends with.\<close>
  "delete_type_loop [] file_path file_type = file_type"
| "delete_type_loop (ext # exts) file_path file_type =
     (if endswith file_path ext then
        (if contains ''components'' file_path then ''component''
         else if contains ''hooks'' file_path then ''hook''
         else file_type)
      else delete_type_loop exts file_path file_type)"

definition range_step :: "nat \<Rightarrow> nat \<Rightarrow> nat list" where
  \<comment> \<open>\<^verbatim>\<open>range(0, n, step)\<close>\<close>
  "range_step n step = filter (\<lambda>i. i mod step = 0) [0 ..< n]"

fun delete_batches :: "world \<Rightarrow> string list list \<Rightarrow> state \<Rightarrow> state" where
  "delete_batches w [] st = st"
| "delete_batches w (batch # batches) st = delete_batches w batches (pinecone_delete w batch st)"

definition delete_file_vectors :: "world \<Rightarrow> string \<Rightarrow> state \<Rightarrow> state" where
  \<comment> \<open>The result (\<open>True\<close>) is dropped: \<^verbatim>\<open>index_file\<close> does not read it.\<close>
  "delete_file_vectors w file_path st =
     (let file_name = basename file_path;
          file_type = delete_type_loop [''.ts'', ''.tsx'', ''.js'', ''.jsx''] file_path ''unknown'';
          file_type =
            (if endswith file_path ''.md'' then ''documentation''
             else if endswith file_path ''.css'' then ''style''
             else if endswith file_path ''.txt'' then ''text''
             else file_type);
          ids_to_delete =
            map (\<lambda>i. ''usergroupchatcontext-'' @ file_type @ ''-'' @ file_name @ ''-chunk-'' @ str_nat i)
              [1 ..< 50];
          batch_size = 100
      in delete_batches w
           (map (\<lambda>i. take batch_size (drop i ids_to_delete))
              (range_step (length ids_to_delete) batch_size))
           st)"

definition index_chunk ::
  "world \<Rightarrow> string \<Rightarrow> metadata \<Rightarrow> nat \<Rightarrow> nat \<Rightarrow> string \<Rightarrow>
     bool \<times> vector list \<times> state \<Rightarrow> bool \<times> vector list \<times> state" where
  \<comment> \<open>The body of the loop over \<^verbatim>\<open>enumerate(chunks)\<close>, on the loop's variables
      \<^verbatim>\<open>success\<close> and \<^verbatim>\<open>vectors_to_upsert\<close>.\<close>
  "index_chunk w base_doc_id metadata total_chunks i chunk acc =
     (case acc of (success, vectors_to_upsert, st) \<Rightarrow>
        let chunk_metadata =
              metadata.extend metadata
                (chunk_metadata.fields (i + 1) total_chunks chunk);
            (embedding, st) = get_embedding w chunk st
        in case embedding of
             None \<Rightarrow> (False, vectors_to_upsert, st)
           | Some [] \<Rightarrow> (False, vectors_to_upsert, st)
           | Some (x # xs) \<Rightarrow>
               let vectors_to_upsert =
                     vectors_to_upsert @
                       [\<lparr>v_id = doc_id base_doc_id i, v_values = x # xs,
                         v_metadata = chunk_metadata\<rparr>]
               in if length vectors_to_upsert \<ge> 100 then
                    (case pinecone_upsert w vectors_to_upsert st of
                       (True, st) \<Rightarrow> (success, [], st)
                     | (False, st) \<Rightarrow> (False, vectors_to_upsert, st))
                  else (success, vectors_to_upsert, st))"

fun index_chunks ::
  "world \<Rightarrow> string \<Rightarrow> metadata \<Rightarrow> nat \<Rightarrow> nat \<Rightarrow> string list \<Rightarrow>
     bool \<times> vector list \<times> state \<Rightarrow> bool \<times> vector list \<times> state" where
  "index_chunks w base_doc_id metadata total_chunks i [] acc = acc"
| "index_chunks w base_doc_id metadata total_chunks i (chunk # chunks) acc =
     index_chunks w base_doc_id metadata total_chunks (Suc i) chunks
       (index_chunk w base_doc_id metadata total_chunks i chunk acc)"

definition index_file :: "world \<Rightarrow> string \<Rightarrow> bool \<Rightarrow> state \<Rightarrow> (bool \<times> state) option" where
  \<comment> \<open>\<open>None\<close> when the chunker does not return.\<close>
  "index_file w file_path force_update st =
     (if \<not> should_index_file file_path then Some (False, st)
      else
        let file_hashes = load_file_hashes st;
            current_hash = get_file_hash w file_path
        in if \<not> force_update \<and> file_hashes file_path = Some current_hash then Some (True, st)
           else
             let st = delete_file_vectors w file_path st;
                 content = read_file_content w file_path
             in if content = [] then Some (False, st)
                else
                  let metadata = create_metadata w file_path;
                      base_doc_id =
                        ''usergroupchatcontext-'' @ md_file_type metadata @ ''-'' @
                          md_file_name metadata
                  in case chunk_text content CHUNK_SIZE CHUNK_OVERLAP of
                       None \<Rightarrow> None
                     | Some chunks \<Rightarrow>
                         (case index_chunks w base_doc_id metadata (length chunks) 0 chunks
                                 (True, [], st) of
                            (success, vectors_to_upsert, st) \<Rightarrow>
                              let (success, st) =
                                    (if vectors_to_upsert \<noteq> [] then
                                       (case pinecone_upsert w vectors_to_upsert st of
                                          (True, st) \<Rightarrow> (success, st)
                                        | (False, st) \<Rightarrow> (False, st))
                                     else (success, st))
                              in if success
                                 then Some (True,
                                        save_file_hashes (file_hashes(file_path \<mapsto> current_hash)) st)
                                 else Some (False, st)))"

fun index_files ::
  "world \<Rightarrow> bool \<Rightarrow> string list \<Rightarrow> nat \<times> nat \<times> state \<Rightarrow> (nat \<times> nat \<times> state) option" where
  \<comment> \<open>The loop over the files of a run, with its two counters.\<close>
  "index_files w force_update [] acc = Some acc"
| "index_files w force_update (file_path # files) acc =
     (case acc of (success_count, failure_count, st) \<Rightarrow>
        (case index_file w file_path force_update st of
           None \<Rightarrow> None
         | Some (True, st) \<Rightarrow>
             index_files w force_update files (success_count + 1, failure_count, st)
         | Some (False, st) \<Rightarrow>
             index_files w force_update files (success_count, failure_count + 1, st)))"

definition index_directory :: "world \<Rightarrow> string list \<Rightarrow> bool \<Rightarrow> state \<Rightarrow> (nat \<times> nat \<times> state) option" where
  \<comment> \<open>\<open>files\<close> are the paths that \<^verbatim>\<open>os.walk\<close> yields, in its order.\<close>
  "index_directory w files force_update st = index_files w force_update files (0, 0, st)"

definition index_changed_files :: "world \<Rightarrow> string list \<Rightarrow> state \<Rightarrow> (nat \<times> nat \<times> state) option" where
  \<comment> \<open>\<open>changed_files\<close> is the result of \<^verbatim>\<open>get_changed_files()\<close>.\<close>
  "index_changed_files w changed_files st =
     (if changed_files = [] then Some (0, 0, st)
      else index_files w True changed_files (0, 0, st))"

section \<open>Reading the log of calls\<close>

fun embed_texts :: "event list \<Rightarrow> string list" where
  "embed_texts [] = []"
| "embed_texts (EmbedCall text ok # es) = text # embed_texts es"
| "embed_texts (e # es) = embed_texts es"

fun embed_flags :: "event list \<Rightarrow> bool list" where
  "embed_flags [] = []"
| "embed_flags (EmbedCall text ok # es) = ok # embed_flags es"
| "embed_flags (e # es) = embed_flags es"

fun upsert_ids :: "event list \<Rightarrow> string list" where
  \<comment> \<open>The identifiers passed to the store's upsert, over all calls.\<close>
  "upsert_ids [] = []"
| "upsert_ids (UpsertCall ids ok # es) = ids @ upsert_ids es"
| "upsert_ids (e # es) = upsert_ids es"

fun call_failed :: "event \<Rightarrow> bool" where
  \<comment> \<open>An embedding or an upsert that failed.\<close>
  "call_failed (EmbedCall text ok) = (\<not> ok)"
| "call_failed (UpsertCall ids ok) = (\<not> ok)"
| "call_failed (DeleteCall ids ok) = False"

fun is_delete :: "event \<Rightarrow> bool" where
  "is_delete (DeleteCall ids ok) = True"
| "is_delete e = False"

section \<open>Auxiliary definitions for the indexer\<close>

text \<open>
  The prefix of the identifiers that \<^verbatim>\<open>index_file\<close> gives to the chunks of a file:
  \<^verbatim>\<open>f"usergroupchatcontext-{metadata['file_type']}-{metadata['file_name']}"\<close>.
\<close>

definition base_doc_id_of :: "world \<Rightarrow> string \<Rightarrow> string" where
  "base_doc_id_of w file_path =
     ''usergroupchatcontext-'' @ md_file_type (create_metadata w file_path) @ ''-'' @
       md_file_name (create_metadata w file_path)"

text \<open>
  The prefix under which \<^verbatim>\<open>delete_file_vectors\<close> looks for the vectors of a file, and
  the identifiers it builds from it.
\<close>

definition delete_prefix :: "string \<Rightarrow> string" where
  "delete_prefix file_path =
     (let file_type = delete_type_loop [''.ts'', ''.tsx'', ''.js'', ''.jsx''] file_path ''unknown'';
          file_type =
            (if endswith file_path ''.md'' then ''documentation''
             else if endswith file_path ''.css'' then ''style''
             else if endswith file_path ''.txt'' then ''text''
             else file_type)
      in ''usergroupchatcontext-'' @ file_type @ ''-'' @ basename file_path)"

definition ids_to_delete :: "string \<Rightarrow> string list" where
  "ids_to_delete file_path = map (doc_id (delete_prefix file_path)) [0 ..< 49]"

text \<open>
  What one run of the loop over the chunks does to its variables and to the state, in
  terms of the calls \<open>new\<close> it adds to the log. Used in the proofs only.
\<close>

definition run_ok ::
  "string \<Rightarrow> nat \<Rightarrow> string list \<Rightarrow> bool \<Rightarrow> vector list \<Rightarrow> state \<Rightarrow>
     bool \<Rightarrow> vector list \<Rightarrow> state \<Rightarrow> event list \<Rightarrow> bool" where
  "run_ok b i chunks success pending st success' pending' st' new \<longleftrightarrow>
     calls st' = calls st @ new \<and>
     embed_texts new = chunks \<and>
     hash_storage st' = hash_storage st \<and>
     success' = (success \<and> \<not> list_ex call_failed new) \<and>
     list_all (\<lambda>e. \<not> is_delete e) new \<and>
     set (map v_id pending) \<subseteq> set (upsert_ids new) \<union> set (map v_id pending') \<and>
     (\<forall>k<length chunks. embed_flags new ! k \<longrightarrow>
        doc_id b (i + k) \<in> set (upsert_ids new) \<union> set (map v_id pending')) \<and>
     dom (store st) \<subseteq> dom (store st') \<and>
     (success' \<longrightarrow>
        set (map v_id pending) \<subseteq> dom (store st') \<union> set (map v_id pending') \<and>
        (\<forall>k<length chunks. doc_id b (i + k) \<in> dom (store st') \<union> set (map v_id pending'))) \<and>
     set (map v_id pending') \<subseteq>
       set (map v_id pending) \<union> (\<lambda>k. doc_id b (i + k)) ` {..<length chunks} \<and>
     dom (store st') \<subseteq>
       dom (store st) \<union> set (map v_id pending) \<union> (\<lambda>k. doc_id b (i + k)) ` {..<length chunks}"

section \<open>Concrete files\<close>

text \<open>
  Two files under the indexed directory: the source file \<^verbatim>\<open>utils/a.ts\<close> and the
  document \<^verbatim>\<open>README.md\<close>. Each holds one short line now (content hash \<open>H2\<close>); the
  provider and the store answer every call. \<open>indexed_before file_path ks\<close> is the state
  that earlier runs on a longer version of the file (content hash \<open>H1\<close>) have left: the
  ledger entry of the file, and in the store the vectors of the chunks numbered \<open>k + 1\<close>
  for \<open>k\<close> in \<open>ks\<close>, under the identifiers that \<^verbatim>\<open>index_file\<close> gives them.
\<close>

definition example_path :: string where
  "example_path = DIRECTORY_TO_INDEX @ ''/utils/a.ts''"

definition example_doc :: string where
  "example_doc = DIRECTORY_TO_INDEX @ ''/README.md''"

definition example_world :: world where
  "example_world =
     \<lparr>get_file_hash = (\<lambda>p. ''H2''),
      file_bytes = (\<lambda>p. ''export const a = 1;''),
      decode = (\<lambda>p encoding. if encoding = ''utf-8'' then Some ''export const a = 1;'' else None),
      last_modified = (\<lambda>p. ''2024-01-01T00:00:00''),
      embed = (\<lambda>history text. Some [1, 2]),
      upsert_raises = (\<lambda>history vectors. False),
      delete_raises = (\<lambda>history ids. None)\<rparr>"

definition old_vector :: "string \<Rightarrow> nat \<Rightarrow> vector" where
  "old_vector file_path k =
     \<lparr>v_id = doc_id (base_doc_id_of example_world file_path) k, v_values = [3, 4],
      v_metadata =
        metadata.extend (create_metadata (example_world\<lparr>get_file_hash := (\<lambda>p. ''H1'')\<rparr>) file_path)
          (chunk_metadata.fields (k + 1) 60 ''old'')\<rparr>"

definition indexed_before :: "string \<Rightarrow> nat list \<Rightarrow> state" where
  "indexed_before file_path ks =
     \<lparr>hash_storage = [file_path \<mapsto> ''H1''],
      store = map_of (map (\<lambda>k. (v_id (old_vector file_path k), old_vector file_path k)) ks),
      calls = []\<rparr>"

definition example_state :: state where
  "example_state = indexed_before example_path [0, 1]"

text \<open>
  What a run of \<^verbatim>\<open>index_file\<close> returns and leaves behind: its result, the log of
  calls, the values of the vectors stored under the given identifiers, and the ledger
  entry of the file.
\<close>

definition run_summary ::
  "world \<Rightarrow> string \<Rightarrow> bool \<Rightarrow> state \<Rightarrow> string list \<Rightarrow>
     (bool \<times> event list \<times> embedding option list \<times> string option) option" where
  "run_summary w file_path force_update st idents =
     (case index_file w file_path force_update st of
        None \<Rightarrow> None
      | Some (ok, st') \<Rightarrow>
          Some (ok, calls st', map (\<lambda>ident. map_option v_values (store st' ident)) idents,
                hash_storage st' file_path))"

text \<open>Two runs on the same file, one after the other, and what the second leaves behind.\<close>

definition run_twice ::
  "world \<Rightarrow> bool \<Rightarrow> world \<Rightarrow> bool \<Rightarrow> string \<Rightarrow> state \<Rightarrow> string list \<Rightarrow>
     (bool \<times> bool \<times> event list \<times> embedding option list \<times> string option) option" where
  "run_twice w1 force1 w2 force2 file_path st idents =
     (case index_file w1 file_path force1 st of
        None \<Rightarrow> None
      | Some (ok1, st1) \<Rightarrow>
          (case run_summary w2 file_path force2 st1 idents of
             None \<Rightarrow> None
           | Some (ok2, rest) \<Rightarrow> Some (ok1, ok2, rest)))"

section \<open>Properties of the string primitives and of the chunker\<close>

lemma find_scan_Some:
  "find_scan sub text p n = Some q \<Longrightarrow> p \<le> q \<and> q < p + n \<and> occurs_at sub text q"
proof (induction n arbitrary: p)
  case 0
  then show ?case by simp
next
  case (Suc n)
  show ?case
  proof (cases "occurs_at sub text p")
    case True
    with Suc.prems show ?thesis by simp
  next
    case False
    with Suc.prems have "find_scan sub text (Suc p) n = Some q" by simp
    from Suc.IH [OF this] show ?thesis by simp
  qed
qed

lemma find_scan_find:
  "find_scan sub text p n = List.find (occurs_at sub text) [p ..< p + n]"
  by (induction n arbitrary: p) (simp_all add: upt_conv_Cons del: upt_Suc)

lemma occurs_at_length:
  assumes "occurs_at sub text p" and "sub \<noteq> []"
  shows "p + length sub \<le> length text"
proof -
  from assms(1) have "length (take (length sub) (drop p text)) = length sub"
    by (simp add: occurs_at_def)
  then have "length sub \<le> length text - p" by simp
  moreover from assms(2) have "0 < length sub" by simp
  ultimately show ?thesis by arith
qed

lemma py_find_range:
  assumes "py_find text sub a b \<noteq> - 1" and "0 \<le> a" and "0 \<le> b"
  shows "a \<le> py_find text sub a b"
    and "py_find text sub a b + int (length sub) \<le> b"
    and "py_find text sub a b + int (length sub) \<le> int (length text)"
    and "occurs_at sub text (nat (py_find text sub a b))"
proof -
  let ?n = "Suc (min (length text) (nat b)) - (nat a + length sub)"
  from assms obtain q where q: "find_scan sub text (nat a) ?n = Some q"
    and r: "py_find text sub a b = int q"
    by (auto simp: py_find_def find_lo_def clip_index_def Let_def split: option.splits)
  from find_scan_Some [OF q] have *: "nat a \<le> q" "q < nat a + ?n" "occurs_at sub text q"
    by simp_all
  from * assms(2) show "a \<le> py_find text sub a b" by (simp add: r)
  from * assms(3) show "py_find text sub a b + int (length sub) \<le> b"
    unfolding r by arith
  from * show "py_find text sub a b + int (length sub) \<le> int (length text)"
    unfolding r by arith
  from * show "occurs_at sub text (nat (py_find text sub a b))" by (simp add: r)
qed

lemma chunk_step_Stop:
  assumes "chunk_step text cs co start = Stop p"
  shows "int (length text) \<le> start + cs"
    and "p = \<lparr>p_start = start, p_stop = int (length text), p_cut = Remainder,
               p_text = py_slice_from text start\<rparr>"
  using assms by (auto simp: chunk_step_def Let_def split: if_splits)

lemma chunk_step_Continue:
  assumes step: "chunk_step text cs co start = Continue p nxt"
    and start: "0 \<le> start" and co: "0 \<le> co" "co < cs"
  shows "start + cs < int (length text)"
    and "p_start p = start"
    and "start < nxt"
    and "nxt < int (length text)"
    and "nxt \<le> p_stop p"
    and "p_stop p \<le> int (length text)"
    and "p_stop p \<le> start + cs + co"
    and "p_cut p = Hard \<longrightarrow> p_stop p = start + cs \<and> nxt = start + cs - co"
    and "p_cut p \<noteq> Hard \<longrightarrow> nxt = p_stop p"
    and "p_cut p \<in> {Paragraph, Sentence, Line, Hard}"
    and "p_text p = py_strip (py_slice text start (p_stop p))"
proof -
  let ?e = "start + cs"
  let ?pb = "py_find text ''\<newline>\<newline>'' (?e - co) (?e + co)"
  let ?sb = "py_find text ''. '' (?e - co) (?e + co)"
  let ?lb = "py_find text ''\<newline>'' (?e - co) (?e + co)"
  from step show lt: "?e < int (length text)"
    by (auto simp: chunk_step_def Let_def split: if_splits)
  from start co have lo: "0 \<le> ?e - co" and hi: "0 \<le> ?e + co" by simp_all
  consider (para) "?pb \<noteq> - 1"
    | (sent) "?pb = - 1" "?sb \<noteq> - 1"
    | (line) "?pb = - 1" "?sb = - 1" "?lb \<noteq> - 1"
    | (hard) "?pb = - 1" "?sb = - 1" "?lb = - 1"
    by blast
  then have "p_start p = start \<and> start < nxt \<and> nxt < int (length text) \<and> nxt \<le> p_stop p
      \<and> p_stop p \<le> int (length text) \<and> p_stop p \<le> start + cs + co
      \<and> (p_cut p = Hard \<longrightarrow> p_stop p = start + cs \<and> nxt = start + cs - co)
      \<and> (p_cut p \<noteq> Hard \<longrightarrow> nxt = p_stop p)
      \<and> p_cut p \<in> {Paragraph, Sentence, Line, Hard}
      \<and> p_text p = py_strip (py_slice text start (p_stop p))"
  proof cases
    case para
    with step lt have p: "p = \<lparr>p_start = start, p_stop = ?pb, p_cut = Paragraph,
        p_text = py_strip (py_slice text start ?pb)\<rparr>" and n: "nxt = ?pb"
      by (auto simp: chunk_step_def Let_def)
    from py_find_range [OF para lo hi] co show ?thesis
      by (simp add: p n)
  next
    case sent
    with step lt have p: "p = \<lparr>p_start = start, p_stop = ?sb + 1, p_cut = Sentence,
        p_text = py_strip (py_slice text start (?sb + 1))\<rparr>" and n: "nxt = ?sb + 1"
      by (auto simp: chunk_step_def Let_def)
    from py_find_range [OF sent(2) lo hi] co show ?thesis
      by (simp add: p n)
  next
    case line
    with step lt have p: "p = \<lparr>p_start = start, p_stop = ?lb, p_cut = Line,
        p_text = py_strip (py_slice text start ?lb)\<rparr>" and n: "nxt = ?lb"
      by (auto simp: chunk_step_def Let_def)
    from py_find_range [OF line(3) lo hi] co show ?thesis
      by (simp add: p n)
  next
    case hard
    with step lt have p: "p = \<lparr>p_start = start, p_stop = ?e, p_cut = Hard,
        p_text = py_strip (py_slice text start ?e)\<rparr>" and n: "nxt = ?e - co"
      by (auto simp: chunk_step_def Let_def)
    from co lt show ?thesis
      by (simp add: p n)
  qed
  then show "p_start p = start" "start < nxt" "nxt < int (length text)" "nxt \<le> p_stop p"
    "p_stop p \<le> int (length text)" "p_stop p \<le> start + cs + co"
    "p_cut p = Hard \<longrightarrow> p_stop p = start + cs \<and> nxt = start + cs - co"
    "p_cut p \<noteq> Hard \<longrightarrow> nxt = p_stop p"
    "p_cut p \<in> {Paragraph, Sentence, Line, Hard}"
    "p_text p = py_strip (py_slice text start (p_stop p))"
    by blast+
qed

lemma chunk_loop_rule:
  assumes co: "0 \<le> co" "co < cs" and start: "0 \<le> start"
    and finished: "\<And>s. int (length text) \<le> s \<Longrightarrow> P s []"
    and stop: "\<And>s p. 0 \<le> s \<Longrightarrow> s < int (length text) \<Longrightarrow>
                 chunk_step text cs co s = Stop p \<Longrightarrow> P s [p]"
    and continue: "\<And>s p nxt ps. 0 \<le> s \<Longrightarrow> s < int (length text) \<Longrightarrow>
                 chunk_step text cs co s = Continue p nxt \<Longrightarrow>
                 chunk_loop text cs co nxt = Some ps \<Longrightarrow> P nxt ps \<Longrightarrow> P s (p # ps)"
  shows "\<exists>ps. chunk_loop text cs co start = Some ps \<and> P start ps"
  using start
proof (induction "nat (int (length text) - start)" arbitrary: start rule: less_induct)
  case less
  show ?case
  proof (cases "start < int (length text)")
    case False
    then show ?thesis
      by (subst chunk_loop.simps) (simp add: finished)
  next
    case True
    show ?thesis
    proof (cases "chunk_step text cs co start")
      case (Stop p)
      with True stop [OF less.prems True Stop] show ?thesis
        by (subst chunk_loop.simps) simp
    next
      case (Continue p nxt)
      from chunk_step_Continue(3) [OF Continue less.prems co] have adv: "start < nxt" .
      with less.prems True have "nat (int (length text) - nxt) < nat (int (length text) - start)"
        and "0 \<le> nxt" by simp_all
      from less.hyps [OF this] obtain ps
        where ps: "chunk_loop text cs co nxt = Some ps" and P: "P nxt ps" by blast
      from continue [OF less.prems True Continue ps P] True Continue ps show ?thesis
        by (subst chunk_loop.simps) simp
    qed
  qed
qed

lemma py_slice_from_drop:
  "0 \<le> a \<Longrightarrow> py_slice_from text a = drop (nat a) text"
  by (simp add: py_slice_from_def clip_index_def min_def)

lemma length_py_slice_from:
  "0 \<le> a \<Longrightarrow> a \<le> int (length text) \<Longrightarrow> int (length (py_slice_from text a)) = int (length text) - a"
  by (simp add: py_slice_from_drop)

lemma py_slice_from_slice:
  "py_slice_from text a = py_slice text a (int (length text))"
  by (simp add: py_slice_from_def py_slice_def clip_index_def)

lemma length_py_slice:
  "0 \<le> a \<Longrightarrow> a \<le> b \<Longrightarrow> int (length (py_slice text a b)) \<le> b - a"
  by (auto simp: py_slice_def clip_index_def Let_def min_def)

lemma length_py_strip: "length (py_strip s) \<le> length s"
proof -
  have "length (py_strip s) \<le> length (dropWhile is_space s)"
    unfolding py_strip_def length_rev
    by (metis length_dropWhile_le length_rev)
  also have "\<dots> \<le> length s" by (rule length_dropWhile_le)
  finally show ?thesis .
qed

lemma chunk_loop_pieces:
  assumes "0 \<le> co" "co < cs" "0 \<le> start"
  shows "\<exists>ps. chunk_loop text cs co start = Some ps \<and> (\<forall>p\<in>set ps. piece_facts text cs co p)"
proof (rule chunk_loop_rule [OF assms])
  fix s show "\<forall>p\<in>set []. piece_facts text cs co p" by simp
next
  fix s p assume "0 \<le> s" "s < int (length text)" "chunk_step text cs co s = Stop p"
  with chunk_step_Stop [of "text" cs co s p] assms(1)
  show "\<forall>q\<in>set [p]. piece_facts text cs co q"
    by (simp add: piece_facts_def)
next
  fix s p nxt ps
  assume s: "0 \<le> s" and step: "chunk_step text cs co s = Continue p nxt"
    and ih: "\<forall>q\<in>set ps. piece_facts text cs co q"
  from chunk_step_Continue [OF step s assms(1,2)] s assms(1)
  have "piece_facts text cs co p"
    by (auto simp: piece_facts_def)
  with ih show "\<forall>q\<in>set (p # ps). piece_facts text cs co q" by simp
qed

lemma chunk_loop_covers:
  assumes "0 \<le> co" "co < cs" "0 \<le> start"
  shows "\<exists>ps. chunk_loop text cs co start = Some ps \<and> covers text start ps"
proof (rule chunk_loop_rule [OF assms])
  fix s :: int assume "int (length text) \<le> s"
  then show "covers text s []" by (simp add: covers_def)
next
  fix s p assume "0 \<le> s" "s < int (length text)" "chunk_step text cs co s = Stop p"
  with chunk_step_Stop [of "text" cs co s p]
  show "covers text s [p]"
    by (simp add: covers_def)
next
  fix s p nxt ps
  assume s: "0 \<le> s" "s < int (length text)" and step: "chunk_step text cs co s = Continue p nxt"
    and ih: "covers text nxt ps"
  note f = chunk_step_Continue [OF step s(1) assms(1,2)]
  from ih f(4) have ne: "ps \<noteq> []" and hd: "p_start (hd ps) = nxt"
    and last: "p_cut (last ps) = Remainder" by (simp_all add: covers_def)
  have "\<exists>q\<in>set (p # ps). p_start q \<le> k \<and> k < p_stop q"
    if k: "s \<le> k" "k < int (length text)" for k
  proof (cases "k < p_stop p")
    case True
    with k f(2) show ?thesis by simp
  next
    case False
    with f(5) k have "nxt \<le> k \<and> k < int (length text)" by simp
    with ih obtain q where "q \<in> set ps" "p_start q \<le> k \<and> k < p_stop q"
      unfolding covers_def by blast
    then show ?thesis by auto
  qed
  with ih ne hd last f(2,3,5) show "covers text s (p # ps)"
    by (simp add: covers_def successively_Cons)
qed


lemma chunk_pieces_long:
  assumes ov: "0 \<le> overlap" "overlap < chunk_size"
    and long: "chunk_size * 4 < int (length text)"
  shows "\<exists>ps. chunk_pieces text chunk_size overlap = Some ps \<and>
           covers text 0 ps \<and> (\<forall>p\<in>set ps. piece_facts text (chunk_size * 4) (overlap * 4) p)"
proof -
  from ov have co: "0 \<le> overlap * 4" "overlap * 4 < chunk_size * 4" by simp_all
  from chunk_loop_covers [OF co, of 0 "text"] obtain ps
    where ps: "chunk_loop text (chunk_size * 4) (overlap * 4) 0 = Some ps"
      and c: "covers text 0 ps" by auto
  from chunk_loop_pieces [OF co, of 0 "text"] ps
  have "\<forall>p\<in>set ps. piece_facts text (chunk_size * 4) (overlap * 4) p" by auto
  with ps c long show ?thesis
    by (simp add: chunk_pieces_def Let_def)
qed

lemma chunk_pieces_short:
  assumes "int (length text) \<le> chunk_size * 4"
  shows "chunk_pieces text chunk_size overlap =
           Some [\<lparr>p_start = 0, p_stop = int (length text), p_cut = Whole, p_text = text\<rparr>]"
  using assms by (simp add: chunk_pieces_def Let_def)

lemma py_slice_whole: "py_slice text 0 (int (length text)) = text"
  by (simp add: py_slice_def clip_index_def)

lemma piece_facts_length:
  assumes "piece_facts text cs co p" and "0 \<le> co"
  shows "int (length (p_text p)) \<le> p_stop p - p_start p"
proof (cases "p_cut p = Remainder")
  case True
  with assms length_py_slice_from [of "p_start p" "text"] show ?thesis
    by (simp add: piece_facts_def)
next
  case False
  with assms have t: "p_text p = py_strip (py_slice text (p_start p) (p_stop p))"
    and b: "0 \<le> p_start p" "p_start p \<le> p_stop p"
    by (simp_all add: piece_facts_def)
  have "int (length (p_text p)) \<le> int (length (py_slice text (p_start p) (p_stop p)))"
    unfolding t using length_py_strip by simp
  also have "\<dots> \<le> p_stop p - p_start p" by (rule length_py_slice [OF b])
  finally show ?thesis .
qed

lemma find_append_split:
  "List.find P (xs @ ys) = (case List.find P xs of None \<Rightarrow> List.find P ys | Some x \<Rightarrow> Some x)"
  by (induction xs) simp_all

lemma find_upt_restrict:
  assumes "\<And>p. lo \<le> p \<Longrightarrow> Q p \<longleftrightarrow> p < m \<and> R p" and "m \<le> k \<or> m = lo"
  shows "List.find Q [lo ..< k] = List.find R [lo ..< m]"
proof (cases "lo \<le> m \<and> m \<le> k")
  case True
  then have "[lo ..< k] = [lo ..< m] @ [m ..< k]"
    by (metis le_Suc_ex upt_add_eq_append)
  moreover have "List.find Q [m ..< k] = None"
    using assms(1) True by (auto simp: find_None_iff)
  moreover have "List.find Q [lo ..< m] = List.find R [lo ..< m]"
    by (rule find_cong) (use assms(1) in auto)
  ultimately show ?thesis
    by (simp add: find_append_split split: option.splits)
next
  case False
  with assms(2) have "List.find R [lo ..< m] = None" by auto
  moreover have "List.find Q [lo ..< k] = None"
    using assms False by (auto simp: find_None_iff)
  ultimately show ?thesis by simp
qed

lemma py_find_window:
  assumes "0 \<le> a" and "0 \<le> b" and "sub \<noteq> []"
  shows "py_find text sub a b =
           (case first_in_window sub text a b of None \<Rightarrow> - 1 | Some p \<Rightarrow> int p)"
proof -
  let ?hi = "min (length text) (nat b)"
  let ?n = "Suc ?hi - (nat a + length sub)"
  have "List.find (\<lambda>p. int (p + length sub) \<le> b \<and> occurs_at sub text p) [nat a ..< nat b]
          = List.find (occurs_at sub text) [nat a ..< nat a + ?n]"
  proof (rule find_upt_restrict)
    fix p assume "nat a \<le> p"
    show "(int (p + length sub) \<le> b \<and> occurs_at sub text p) \<longleftrightarrow>
            (p < nat a + ?n \<and> occurs_at sub text p)"
      using occurs_at_length [OF _ assms(3), of "text" p] assms(2) \<open>nat a \<le> p\<close>
      by (cases "occurs_at sub text p") auto
  next
    from assms(3) have "0 < length sub" by simp
    then show "nat a + ?n \<le> nat b \<or> nat a + ?n = nat a" by arith
  qed
  then show ?thesis
    using assms(1,2)
    by (simp add: py_find_def first_in_window_def find_scan_find find_lo_def clip_index_def Let_def)
qed

lemma chunk_step_window_chars:
  assumes lo: "0 \<le> start + cs - co" and hi: "0 \<le> start + cs + co"
    and more: "start + cs < int (length text)"
  shows "chunk_step text cs co start = window_step (2 * co) text cs co start"
proof -
  have w: "(2 * co) div 2 = co" by simp
  have ne: "''\<newline>\<newline>'' \<noteq> []" "''. '' \<noteq> []" "''\<newline>'' \<noteq> []" by simp_all
  note f = py_find_window [OF lo hi ne(1), of "text"] py_find_window [OF lo hi ne(2), of "text"]
    py_find_window [OF lo hi ne(3), of "text"]
  from more show ?thesis
    unfolding chunk_step_def window_step_def Let_def w f
    by (simp split: option.splits)
qed

section \<open>Properties of the indexer\<close>

lemma embed_texts_append: "embed_texts (xs @ ys) = embed_texts xs @ embed_texts ys"
  by (induction xs rule: embed_texts.induct) simp_all

lemma embed_flags_append: "embed_flags (xs @ ys) = embed_flags xs @ embed_flags ys"
  by (induction xs rule: embed_flags.induct) simp_all

lemma upsert_ids_append: "upsert_ids (xs @ ys) = upsert_ids xs @ upsert_ids ys"
  by (induction xs rule: upsert_ids.induct) simp_all

lemma length_embed_flags: "length (embed_flags es) = length (embed_texts es)"
  by (induction es rule: embed_flags.induct) simp_all

lemma deletes_no_embed:
  "list_all is_delete ds \<Longrightarrow> embed_texts ds = [] \<and> embed_flags ds = [] \<and> upsert_ids ds = []
     \<and> \<not> list_ex call_failed ds"
proof (induction ds)
  case Nil
  show ?case by simp
next
  case (Cons e ds)
  then show ?case by (cases e) simp_all
qed

lemma dom_fold_upsert:
  "dom (fold (\<lambda>v m. m(v_id v \<mapsto> v)) vs m) = dom m \<union> set (map v_id vs)"
  by (induction vs arbitrary: m) auto

lemma pinecone_delete_effect:
  "\<exists>ok. calls (pinecone_delete w ids st) = calls st @ [DeleteCall ids ok] \<and>
     hash_storage (pinecone_delete w ids st) = hash_storage st"
  by (cases "delete_raises w (calls st) ids") (auto simp: pinecone_delete_def)

lemma delete_batches_effect:
  "\<exists>ds. calls (delete_batches w bs st) = calls st @ ds \<and> list_all is_delete ds \<and>
     hash_storage (delete_batches w bs st) = hash_storage st"
proof (induction bs arbitrary: st)
  case Nil
  show ?case by simp
next
  case (Cons b bs)
  from pinecone_delete_effect [of w b st] obtain ok
    where 1: "calls (pinecone_delete w b st) = calls st @ [DeleteCall b ok]"
      and 2: "hash_storage (pinecone_delete w b st) = hash_storage st" by blast
  from Cons.IH [of "pinecone_delete w b st"] obtain ds
    where 3: "calls (delete_batches w bs (pinecone_delete w b st)) = calls (pinecone_delete w b st) @ ds"
      and 4: "list_all is_delete ds"
      and 5: "hash_storage (delete_batches w bs (pinecone_delete w b st)) = hash_storage (pinecone_delete w b st)"
    by blast
  from 1 2 3 4 5 show ?case
    by (intro exI [of _ "DeleteCall b ok # ds"]) simp
qed

lemma delete_file_vectors_effect:
  "\<exists>ds. calls (delete_file_vectors w file_path st) = calls st @ ds \<and> list_all is_delete ds \<and>
     hash_storage (delete_file_vectors w file_path st) = hash_storage st"
  unfolding delete_file_vectors_def Let_def by (rule delete_batches_effect)

lemma index_chunk_run:
  "\<exists>new. case index_chunk w b m t i chunk (success, pending, st) of
      (success', pending', st') \<Rightarrow> run_ok b i [chunk] success pending st success' pending' st' new"
proof -
  let ?r = "embed w (calls st) chunk"
  let ?st1 = "st\<lparr>calls := calls st @ [EmbedCall chunk (?r \<noteq> None \<and> ?r \<noteq> Some [])]\<rparr>"
  let ?v = "\<lambda>e. \<lparr>v_id = doc_id b i, v_values = e,
               v_metadata = metadata.extend m (chunk_metadata.fields (i + 1) t chunk)\<rparr>"
  show ?thesis
  proof (cases ?r)
    case None
    then show ?thesis
      by (intro exI [of _ "[EmbedCall chunk False]"])
        (auto simp: run_ok_def index_chunk_def get_embedding_def)
  next
    case (Some e)
    show ?thesis
    proof (cases e)
      case Nil
      with Some show ?thesis
        by (intro exI [of _ "[EmbedCall chunk False]"])
          (auto simp: run_ok_def index_chunk_def get_embedding_def)
    next
      case (Cons x xs)
      show ?thesis
      proof (cases "100 \<le> length (pending @ [?v e])")
        case False
        with Some Cons show ?thesis
          by (intro exI [of _ "[EmbedCall chunk True]"])
            (auto simp: run_ok_def index_chunk_def get_embedding_def)
      next
        case True
        show ?thesis
        proof (cases "upsert_raises w (calls ?st1) (pending @ [?v e])")
          case False
          with Some Cons True show ?thesis
            by (intro exI [of _ "[EmbedCall chunk True,
                  UpsertCall (map v_id pending @ [doc_id b i]) True]"])
              (auto simp: run_ok_def index_chunk_def get_embedding_def pinecone_upsert_def
                dom_fold_upsert)
        next
          case raises: True
          with Some Cons True show ?thesis
            by (intro exI [of _ "[EmbedCall chunk True,
                  UpsertCall (map v_id pending @ [doc_id b i]) False]"])
              (auto simp: run_ok_def index_chunk_def get_embedding_def pinecone_upsert_def)
        qed
      qed
    qed
  qed
qed

lemma run_ok_Cons:
  assumes 1: "run_ok b i [c] s p st s1 p1 st1 new1"
    and 2: "run_ok b (Suc i) cs s1 p1 st1 s2 p2 st2 new2"
  shows "run_ok b i (c # cs) s p st s2 p2 st2 (new1 @ new2)"
proof -
  note A = 1 [unfolded run_ok_def] and B = 2 [unfolded run_ok_def]
  from A have a_calls: "calls st1 = calls st @ new1" and a_texts: "embed_texts new1 = [c]"
    and a_hash: "hash_storage st1 = hash_storage st"
    and a_succ: "s1 = (s \<and> \<not> list_ex call_failed new1)"
    and a_nodel: "list_all (\<lambda>e. \<not> is_delete e) new1"
    and a_pend: "set (map v_id p) \<subseteq> set (upsert_ids new1) \<union> set (map v_id p1)"
    and a_dom: "dom (store st) \<subseteq> dom (store st1)"
    by blast+
  from A have a_flag: "embed_flags new1 ! 0 \<longrightarrow>
      doc_id b i \<in> set (upsert_ids new1) \<union> set (map v_id p1)"
    by (elim conjE) (drule spec [of _ 0], simp)
  from A have a_kept: "s1 \<longrightarrow> set (map v_id p) \<subseteq> dom (store st1) \<union> set (map v_id p1)"
    by blast
  from A have a_stored: "s1 \<longrightarrow> doc_id b i \<in> dom (store st1) \<union> set (map v_id p1)"
    by (elim conjE) auto
  from B have b_calls: "calls st2 = calls st1 @ new2" and b_texts: "embed_texts new2 = cs"
    and b_hash: "hash_storage st2 = hash_storage st1"
    and b_succ: "s2 = (s1 \<and> \<not> list_ex call_failed new2)"
    and b_nodel: "list_all (\<lambda>e. \<not> is_delete e) new2"
    and b_pend: "set (map v_id p1) \<subseteq> set (upsert_ids new2) \<union> set (map v_id p2)"
    and b_flag: "\<forall>k<length cs. embed_flags new2 ! k \<longrightarrow>
        doc_id b (Suc i + k) \<in> set (upsert_ids new2) \<union> set (map v_id p2)"
    and b_dom: "dom (store st1) \<subseteq> dom (store st2)"
    and b_kept: "s2 \<longrightarrow> set (map v_id p1) \<subseteq> dom (store st2) \<union> set (map v_id p2)"
    and b_stored: "s2 \<longrightarrow> (\<forall>k<length cs. doc_id b (Suc i + k) \<in> dom (store st2) \<union> set (map v_id p2))"
    by blast+
  from A have a_pend': "set (map v_id p1) \<subseteq> insert (doc_id b i) (set (map v_id p))"
    and a_grow: "dom (store st1) \<subseteq> insert (doc_id b i) (dom (store st) \<union> set (map v_id p))"
    by (elim conjE, simp add: lessThan_Suc)+
  from B have b_pend': "set (map v_id p2) \<subseteq>
        set (map v_id p1) \<union> (\<lambda>k. doc_id b (Suc i + k)) ` {..<length cs}"
    and b_grow: "dom (store st2) \<subseteq>
        dom (store st1) \<union> set (map v_id p1) \<union> (\<lambda>k. doc_id b (Suc i + k)) ` {..<length cs}"
    by blast+
  have img: "(\<lambda>k. doc_id b (i + k)) ` {..<length (c # cs)} =
      insert (doc_id b i) ((\<lambda>k. doc_id b (Suc i + k)) ` {..<length cs})"
    by (simp add: lessThan_Suc_eq_insert_0 image_image)
  from a_texts length_embed_flags [of new1] obtain f where f: "embed_flags new1 = [f]"
    by (cases "embed_flags new1") auto
  have flags: "embed_flags (new1 @ new2) ! k \<longrightarrow>
        doc_id b (i + k) \<in> set (upsert_ids (new1 @ new2)) \<union> set (map v_id p2)"
    if "k < length (c # cs)" for k
  proof (cases k)
    case 0
    with a_flag b_pend f show ?thesis
      unfolding embed_flags_append upsert_ids_append by auto
  next
    case (Suc j)
    with that b_flag f show ?thesis
      unfolding embed_flags_append upsert_ids_append by auto
  qed
  have stored: "doc_id b (i + k) \<in> dom (store st2) \<union> set (map v_id p2)"
    if "k < length (c # cs)" and "s2" for k
  proof (cases k)
    case 0
    from b_succ that(2) have "s1" by simp
    with a_stored have "doc_id b i \<in> dom (store st1) \<union> set (map v_id p1)" by simp
    with b_kept b_dom that(2) 0 show ?thesis by auto
  next
    case (Suc j)
    with that b_stored show ?thesis by simp
  qed
  have kept: "set (map v_id p) \<subseteq> dom (store st2) \<union> set (map v_id p2)" if "s2"
  proof -
    from b_succ that have "s1" by simp
    with a_kept have "set (map v_id p) \<subseteq> dom (store st1) \<union> set (map v_id p1)" by simp
    with b_kept b_dom that show ?thesis by blast
  qed
  show ?thesis
    unfolding run_ok_def
  proof (intro conjI allI impI)
    show "calls st2 = calls st @ new1 @ new2" by (simp add: a_calls b_calls)
    show "embed_texts (new1 @ new2) = c # cs" by (simp add: embed_texts_append a_texts b_texts)
    show "hash_storage st2 = hash_storage st" by (simp add: a_hash b_hash)
    show "s2 = (s \<and> \<not> list_ex call_failed (new1 @ new2))"
      using a_succ b_succ by auto
    show "list_all (\<lambda>e. \<not> is_delete e) (new1 @ new2)" using a_nodel b_nodel by simp
    show "set (map v_id p) \<subseteq> set (upsert_ids (new1 @ new2)) \<union> set (map v_id p2)"
      using a_pend b_pend unfolding upsert_ids_append by auto
    show "dom (store st) \<subseteq> dom (store st2)" using a_dom b_dom by blast
    show "set (map v_id p) \<subseteq> dom (store st2) \<union> set (map v_id p2)" if "s2"
      using kept that .
    show "set (map v_id p2) \<subseteq>
        set (map v_id p) \<union> (\<lambda>k. doc_id b (i + k)) ` {..<length (c # cs)}"
      unfolding img using a_pend' b_pend' by blast
    show "dom (store st2) \<subseteq>
        dom (store st) \<union> set (map v_id p) \<union> (\<lambda>k. doc_id b (i + k)) ` {..<length (c # cs)}"
      unfolding img using a_pend' a_grow b_grow by blast
  next
    fix k assume "k < length (c # cs)" "embed_flags (new1 @ new2) ! k"
    with flags show "doc_id b (i + k) \<in> set (upsert_ids (new1 @ new2)) \<union> set (map v_id p2)"
      by blast
  next
    fix k assume "s2" "k < length (c # cs)"
    with stored show "doc_id b (i + k) \<in> dom (store st2) \<union> set (map v_id p2)" by blast
  qed
qed

lemma index_chunks_run:
  "\<exists>new. case index_chunks w b m t i chunks (s, p, st) of
      (s', p', st') \<Rightarrow> run_ok b i chunks s p st s' p' st' new"
proof (induction chunks arbitrary: i s p st)
  case Nil
  show ?case
    by (intro exI [of _ "[]"]) (simp add: run_ok_def)
next
  case (Cons c cs)
  obtain s1 p1 st1 where 1: "index_chunk w b m t i c (s, p, st) = (s1, p1, st1)"
    by (cases "index_chunk w b m t i c (s, p, st)") auto
  obtain s2 p2 st2 where 2: "index_chunks w b m t (Suc i) cs (s1, p1, st1) = (s2, p2, st2)"
    by (cases "index_chunks w b m t (Suc i) cs (s1, p1, st1)") auto
  from index_chunk_run [where w = w and b = b and m = m and t = t and i = i and chunk = c
      and success = s and pending = p and st = st] 1 obtain new1
    where r1: "run_ok b i [c] s p st s1 p1 st1 new1" by auto
  from Cons.IH [of "Suc i" s1 p1 st1] 2 obtain new2
    where r2: "run_ok b (Suc i) cs s1 p1 st1 s2 p2 st2 new2" by auto
  from run_ok_Cons [OF r1 r2] 1 2 show ?case by auto
qed

lemma chunk_text_default:
  "\<exists>chunks. chunk_text content CHUNK_SIZE CHUNK_OVERLAP = Some chunks"
proof (cases "int (length content) \<le> CHUNK_SIZE * 4")
  case True
  from chunk_pieces_short [OF True] show ?thesis by (simp add: chunk_text_def)
next
  case False
  then have "CHUNK_SIZE * 4 < int (length content)" by simp
  from chunk_pieces_long [OF _ _ this, of CHUNK_OVERLAP] show ?thesis
    by (auto simp: chunk_text_def CHUNK_SIZE_def CHUNK_OVERLAP_def)
qed

lemma pinecone_upsert_effect:
  assumes up: "pinecone_upsert w vs st = (ok, st')"
  shows "calls st' = calls st @ [UpsertCall (map v_id vs) ok] \<and>
     hash_storage st' = hash_storage st \<and>
     dom (store st) \<subseteq> dom (store st') \<and>
     dom (store st') \<subseteq> dom (store st) \<union> set (map v_id vs) \<and>
     (ok \<longrightarrow> set (map v_id vs) \<subseteq> dom (store st'))"
proof (cases "upsert_raises w (calls st) vs")
  case True
  with up show ?thesis by (auto simp: pinecone_upsert_def)
next
  case False
  with up have ok: "ok" and c: "calls st' = calls st @ [UpsertCall (map v_id vs) True]"
    and h: "hash_storage st' = hash_storage st"
    and s: "store st' = fold (\<lambda>v m. m(v_id v \<mapsto> v)) vs (store st)"
    by (auto simp: pinecone_upsert_def)
  from s have "dom (store st') = dom (store st) \<union> set (map v_id vs)"
    by (simp only: dom_fold_upsert)
  with ok c h show ?thesis by auto
qed

lemma index_file_unfold:
  assumes idx: "should_index_file file_path"
    and stale: "force_update \<or> hash_storage st file_path \<noteq> Some (get_file_hash w file_path)"
    and content: "read_file_content w file_path \<noteq> []"
    and chunks: "chunk_text (read_file_content w file_path) CHUNK_SIZE CHUNK_OVERLAP = Some chunks"
    and loop: "index_chunks w (base_doc_id_of w file_path) (create_metadata w file_path)
        (length chunks) 0 chunks (True, [], delete_file_vectors w file_path st) = (s2, p2, st2)"
  shows "index_file w file_path force_update st =
    (let (success, st3) =
           (if p2 \<noteq> [] then
              (case pinecone_upsert w p2 st2 of
                 (True, st3) \<Rightarrow> (s2, st3)
               | (False, st3) \<Rightarrow> (False, st3))
            else (s2, st2))
     in if success
        then Some (True, save_file_hashes ((hash_storage st)(file_path \<mapsto> get_file_hash w file_path)) st3)
        else Some (False, st3))"
proof -
  from stale have ns: "(\<not> force_update \<and> hash_storage st file_path = Some (get_file_hash w file_path)) = False"
    by auto
  have nidx: "(\<not> should_index_file file_path) = False" using idx by simp
  have c: "(read_file_content w file_path = []) = False" using content by simp
  show ?thesis
    unfolding index_file_def Let_def nidx ns c if_False chunks option.case
      loop [unfolded base_doc_id_of_def] prod.case load_file_hashes_def
    by (rule refl)
qed

lemma index_file_processed:
  assumes idx: "should_index_file file_path"
    and stale: "force_update \<or> hash_storage st file_path \<noteq> Some (get_file_hash w file_path)"
    and content: "read_file_content w file_path \<noteq> []"
  shows "\<exists>chunks ok st' dels new.
     chunk_text (read_file_content w file_path) CHUNK_SIZE CHUNK_OVERLAP = Some chunks \<and>
     index_file w file_path force_update st = Some (ok, st') \<and>
     calls st' = calls st @ dels @ new \<and> list_all is_delete dels \<and>
     list_all (\<lambda>e. \<not> is_delete e) new \<and>
     embed_texts new = chunks \<and>
     ok = (\<not> list_ex call_failed new) \<and>
     hash_storage st' =
       (if ok then (hash_storage st)(file_path \<mapsto> get_file_hash w file_path) else hash_storage st) \<and>
     (\<forall>k<length chunks. embed_flags new ! k \<longrightarrow>
        doc_id (base_doc_id_of w file_path) k \<in> set (upsert_ids new)) \<and>
     (ok \<longrightarrow> (\<forall>k<length chunks. doc_id (base_doc_id_of w file_path) k \<in> dom (store st'))) \<and>
     calls (delete_file_vectors w file_path st) = calls st @ dels \<and>
     dom (store st') \<subseteq>
       dom (store (delete_file_vectors w file_path st)) \<union>
         doc_id (base_doc_id_of w file_path) ` {..<length chunks}"
proof -
  let ?b = "base_doc_id_of w file_path"
  let ?m = "create_metadata w file_path"
  let ?h = "get_file_hash w file_path"
  let ?st1 = "delete_file_vectors w file_path st"
  from chunk_text_default obtain chunks
    where chunks: "chunk_text (read_file_content w file_path) CHUNK_SIZE CHUNK_OVERLAP = Some chunks"
    by blast
  from delete_file_vectors_effect [of w file_path st] obtain dels
    where d: "calls ?st1 = calls st @ dels" "list_all is_delete dels"
      "hash_storage ?st1 = hash_storage st" by blast
  obtain s2 p2 st2
    where loop: "index_chunks w ?b ?m (length chunks) 0 chunks (True, [], ?st1) = (s2, p2, st2)"
    by (cases "index_chunks w ?b ?m (length chunks) 0 chunks (True, [], ?st1)") auto
  from index_chunks_run [where w = w and b = ?b and m = ?m and t = "length chunks" and i = 0
      and chunks = chunks and s = True and p = "[]" and st = ?st1] loop
  obtain new2 where "run_ok ?b 0 chunks True [] ?st1 s2 p2 st2 new2" by auto
  note R = this [unfolded run_ok_def]
  from R have r_calls: "calls st2 = calls ?st1 @ new2" and r_texts: "embed_texts new2 = chunks"
    and r_hash: "hash_storage st2 = hash_storage ?st1"
    and r_succ: "s2 = (\<not> list_ex call_failed new2)"
    and r_nodel: "list_all (\<lambda>e. \<not> is_delete e) new2"
    and r_flag: "\<forall>k<length chunks. embed_flags new2 ! k \<longrightarrow>
        doc_id ?b (0 + k) \<in> set (upsert_ids new2) \<union> set (map v_id p2)"
    and r_stored: "s2 \<longrightarrow> (\<forall>k<length chunks. doc_id ?b (0 + k) \<in> dom (store st2) \<union> set (map v_id p2))"
    by blast+
  from R have r_pend: "set (map v_id p2) \<subseteq> doc_id ?b ` {..<length chunks}"
    and r_grow: "dom (store st2) \<subseteq> dom (store ?st1) \<union> doc_id ?b ` {..<length chunks}"
    by (elim conjE, simp)+
  show ?thesis
  proof (cases "p2 = []")
    case True
    let ?st' = "if s2 then save_file_hashes ((hash_storage st)(file_path \<mapsto> ?h)) st2 else st2"
    have run: "index_file w file_path force_update st = Some (s2, ?st')"
      unfolding index_file_unfold [OF idx stale content chunks loop] using True by simp
    have c: "calls ?st' = calls st @ dels @ new2"
      using d r_calls by (simp add: save_file_hashes_def)
    have h: "hash_storage ?st' =
       (if s2 then (hash_storage st)(file_path \<mapsto> ?h) else hash_storage st)"
      using d r_hash by (simp add: save_file_hashes_def)
    have f: "\<forall>k<length chunks. embed_flags new2 ! k \<longrightarrow> doc_id ?b k \<in> set (upsert_ids new2)"
      using r_flag True by simp
    have s: "s2 \<longrightarrow> (\<forall>k<length chunks. doc_id ?b k \<in> dom (store ?st'))"
      using r_stored True by (simp add: save_file_hashes_def)
    have g: "dom (store ?st') \<subseteq> dom (store ?st1) \<union> doc_id ?b ` {..<length chunks}"
      using r_grow by (simp add: save_file_hashes_def)
    from chunks run c d(2) r_nodel r_texts r_succ h f s d(1) g show ?thesis
      by - (intro exI [of _ chunks] exI [of _ s2] exI [of _ ?st'] exI [of _ dels] exI [of _ new2]
          conjI; assumption)
  next
    case False
    obtain ok st3 where up: "pinecone_upsert w p2 st2 = (ok, st3)"
      by (cases "pinecone_upsert w p2 st2") auto
    note U = pinecone_upsert_effect [OF up]
    let ?ok = "s2 \<and> ok"
    let ?st' = "if ?ok then save_file_hashes ((hash_storage st)(file_path \<mapsto> ?h)) st3 else st3"
    let ?new = "new2 @ [UpsertCall (map v_id p2) ok]"
    have run: "index_file w file_path force_update st = Some (?ok, ?st')"
      unfolding index_file_unfold [OF idx stale content chunks loop] using False up
      by (cases ok) simp_all
    have c: "calls ?st' = calls st @ dels @ ?new"
      using U d r_calls by (simp add: save_file_hashes_def)
    have n: "list_all (\<lambda>e. \<not> is_delete e) ?new" using r_nodel by simp
    have t: "embed_texts ?new = chunks" using r_texts by (simp add: embed_texts_append)
    have o: "?ok = (\<not> list_ex call_failed ?new)" using r_succ by auto
    have h: "hash_storage ?st' =
       (if ?ok then (hash_storage st)(file_path \<mapsto> ?h) else hash_storage st)"
      using U d r_hash by (simp add: save_file_hashes_def)
    have f: "\<forall>k<length chunks. embed_flags ?new ! k \<longrightarrow> doc_id ?b k \<in> set (upsert_ids ?new)"
    proof (intro allI impI)
      fix k assume k: "k < length chunks" "embed_flags ?new ! k"
      from k(1) r_texts length_embed_flags [of new2] have "k < length (embed_flags new2)" by simp
      with k(2) have "embed_flags new2 ! k" by (simp add: embed_flags_append nth_append)
      with r_flag k(1) show "doc_id ?b k \<in> set (upsert_ids ?new)"
        by (auto simp: upsert_ids_append)
    qed
    have s: "?ok \<longrightarrow> (\<forall>k<length chunks. doc_id ?b k \<in> dom (store ?st'))"
    proof (intro allI impI)
      fix k assume ok: "?ok" and "k < length chunks"
      with r_stored have "doc_id ?b k \<in> dom (store st2) \<union> set (map v_id p2)" by simp
      with U ok show "doc_id ?b k \<in> dom (store ?st')"
        by (auto simp: save_file_hashes_def)
    qed
    have g: "dom (store ?st') \<subseteq> dom (store ?st1) \<union> doc_id ?b ` {..<length chunks}"
    proof -
      from U have "dom (store st3) \<subseteq> dom (store st2) \<union> set (map v_id p2)" by blast
      with r_grow r_pend have "dom (store st3) \<subseteq> dom (store ?st1) \<union> doc_id ?b ` {..<length chunks}"
        by blast
      then show ?thesis by (simp add: save_file_hashes_def)
    qed
    from chunks run c d(2) n t o h f s d(1) g show ?thesis
      by - (intro exI [of _ chunks] exI [of _ ?ok] exI [of _ ?st'] exI [of _ dels] exI [of _ ?new]
          conjI; assumption)
  qed
qed

lemma index_file_not_indexable:
  "\<not> should_index_file file_path \<Longrightarrow> index_file w file_path force_update st = Some (False, st)"
  by (simp add: index_file_def)

lemma index_file_unchanged:
  assumes "should_index_file file_path" and "\<not> force_update"
    and "hash_storage st file_path = Some (get_file_hash w file_path)"
  shows "index_file w file_path force_update st = Some (True, st)"
  using assms by (simp add: index_file_def Let_def load_file_hashes_def)

lemma index_file_no_content:
  assumes "should_index_file file_path"
    and "force_update \<or> hash_storage st file_path \<noteq> Some (get_file_hash w file_path)"
    and "read_file_content w file_path = []"
  shows "index_file w file_path force_update st = Some (False, delete_file_vectors w file_path st)"
proof -
  from assms(2) have ns: "(\<not> force_update \<and> hash_storage st file_path = Some (get_file_hash w file_path)) = False"
    by auto
  have nidx: "(\<not> should_index_file file_path) = False" using assms(1) by simp
  show ?thesis
    unfolding index_file_def Let_def load_file_hashes_def nidx ns assms(3) if_False
    by simp
qed

lemma universal_newlines_empty: "universal_newlines bs = [] \<longleftrightarrow> bs = []"
  by (induction bs rule: universal_newlines.induct) simp_all

lemma read_file_content_eq:
  "read_file_content w file_path =
     (case decode w file_path ''utf-8'' of
        Some content \<Rightarrow> content
      | None \<Rightarrow> universal_newlines (file_bytes w file_path))"
  by (simp add: read_file_content_def open_read_def split: option.splits)

lemma example_path_indexed: "should_index_file example_path"
  by code_simp

lemma example_doc_indexed: "should_index_file example_doc"
  by code_simp


lemma ids_to_delete_eq:
  "map (\<lambda>i. ''usergroupchatcontext-'' @ file_type @ ''-'' @ file_name @ ''-chunk-'' @ str_nat i)
     [1 ..< 50]
   = map (doc_id (''usergroupchatcontext-'' @ file_type @ ''-'' @ file_name)) [0 ..< 49]"
proof -
  have "[1 ..< 50] = map Suc [0 ..< 49]"
    by (simp only: map_Suc_upt) simp
  then show ?thesis
    by (simp only: map_map) (simp add: doc_id_def comp_def)
qed

lemma range_step_one_batch: "range_step 49 100 = [0]"
  by code_simp

lemma delete_file_vectors_one_call:
  "delete_file_vectors w file_path st = pinecone_delete w (ids_to_delete file_path) st"
proof -
  have l: "length (ids_to_delete file_path) = 49" by (simp add: ids_to_delete_def)
  show ?thesis
    unfolding delete_file_vectors_def Let_def ids_to_delete_eq
    unfolding ids_to_delete_def [unfolded delete_prefix_def Let_def, symmetric]
    by (simp add: l range_step_one_batch)
qed

lemma pinecone_delete_store:
  "\<exists>deleted. calls (pinecone_delete w ids st) = calls st @ [DeleteCall ids deleted] \<and>
     (deleted \<longrightarrow> dom (store (pinecone_delete w ids st)) = dom (store st) - set ids)"
  by (cases "delete_raises w (calls st) ids") (auto simp: pinecone_delete_def)

lemma index_file_reindex:
  assumes "should_index_file file_path"
    and "force_update \<or> hash_storage st file_path \<noteq> Some (get_file_hash w file_path)"
  shows "\<exists>chunks ok st' deleted new.
     chunk_text (read_file_content w file_path) CHUNK_SIZE CHUNK_OVERLAP = Some chunks \<and>
     index_file w file_path force_update st = Some (ok, st') \<and>
     calls st' = calls st @ DeleteCall (ids_to_delete file_path) deleted # new \<and>
     list_all (\<lambda>e. \<not> is_delete e) new \<and>
     (read_file_content w file_path \<noteq> [] \<longrightarrow> embed_texts new = chunks)"
proof -
  let ?st1 = "delete_file_vectors w file_path st"
  from pinecone_delete_store [of w "ids_to_delete file_path" st] obtain deleted
    where dc: "calls ?st1 = calls st @ [DeleteCall (ids_to_delete file_path) deleted]"
    unfolding delete_file_vectors_one_call by blast
  from chunk_text_default obtain chunks
    where chunks: "chunk_text (read_file_content w file_path) CHUNK_SIZE CHUNK_OVERLAP = Some chunks"
    by blast
  show ?thesis
  proof (cases "read_file_content w file_path = []")
    case True
    from index_file_no_content [OF assms True] chunks dc True show ?thesis
      by (intro exI [of _ chunks] exI [of _ False] exI [of _ ?st1] exI [of _ deleted]
          exI [of _ "[]"]) simp
  next
    case False
    from index_file_processed [OF assms False] chunks obtain ok st' dels new
      where run: "index_file w file_path force_update st = Some (ok, st')"
        and c: "calls st' = calls st @ dels @ new"
        and n: "list_all (\<lambda>e. \<not> is_delete e) new"
        and t: "embed_texts new = chunks"
        and d: "calls ?st1 = calls st @ dels"
      by auto
    from d dc have dels: "dels = [DeleteCall (ids_to_delete file_path) deleted]" by simp
    from chunks run c n t show ?thesis
      unfolding dels
      by (intro exI [of _ chunks] exI [of _ ok] exI [of _ st'] exI [of _ deleted] exI [of _ new])
        simp
  qed
qed

lemma chunk_pieces_cover:
  assumes "0 \<le> overlap" and "overlap < chunk_size"
  shows "\<exists>ps. chunk_pieces text chunk_size overlap = Some ps \<and>
           chunk_text text chunk_size overlap = Some (map p_text ps) \<and> covers_text text ps"
proof (cases "int (length text) \<le> chunk_size * 4")
  case True
  from chunk_pieces_short [OF True] show ?thesis
    by (simp add: chunk_text_def covers_text_def py_slice_whole)
next
  case False
  with assms obtain ps where ps: "chunk_pieces text chunk_size overlap = Some ps"
    and c: "covers text 0 ps"
    and f: "\<forall>p\<in>set ps. piece_facts text (chunk_size * 4) (overlap * 4) p"
    using chunk_pieces_long [of overlap chunk_size "text"] by auto
  from False assms have pos: "0 < int (length text)" by linarith
  with c have ne: "ps \<noteq> []" and h: "p_start (hd ps) = 0" and r: "p_cut (last ps) = Remainder"
    and gap: "successively (\<lambda>p q. p_start q \<le> p_stop p) ps"
    and cov: "\<forall>k. 0 \<le> k \<and> k < int (length text) \<longrightarrow> (\<exists>p\<in>set ps. p_start p \<le> k \<and> k < p_stop p)"
    by (simp_all add: covers_def)
  from ne f have "piece_facts text (chunk_size * 4) (overlap * 4) (last ps)" by simp
  with r have l: "p_stop (last ps) = int (length text)"
    by (simp add: piece_facts_def)
  have each: "0 \<le> p_start p \<and> p_start p \<le> p_stop p \<and> p_stop p \<le> int (length text) \<and>
              (p_text p = py_slice text (p_start p) (p_stop p) \<or>
               p_text p = py_strip (py_slice text (p_start p) (p_stop p)))"
    if "p \<in> set ps" for p
  proof -
    from that f have "piece_facts text (chunk_size * 4) (overlap * 4) p" by simp
    then show ?thesis
      by (cases "p_cut p = Remainder") (auto simp: piece_facts_def py_slice_from_slice)
  qed
  from ps ne h l gap each cov show ?thesis
    by (simp add: chunk_text_def covers_text_def)
qed

section \<open>The claims of the specification\<close>

subsection \<open>C1: the vectors of a changed file are replaced\<close>

text \<open>
  Claim C1. For a file that was indexed before and whose content hash has changed (or for
  any file in forced mode), the run deletes the identifiers of the file's previous chunks
  before it upserts, and after a successful run the identifiers in the store for that file
  are exactly \<open>prefix-chunk-1 .. prefix-chunk-N\<close> for the new number of chunks \<open>N\<close>, with
  the prefix \<^verbatim>\<open>usergroupchatcontext-{file_type}-{file_name}\<close> of the upserts.

  The code does not do this for every file. \<^verbatim>\<open>delete_file_vectors\<close> ("Delete all vectors
  for a specific file") derives the file type anew and knows two of the code types only
  (\<^verbatim>\<open>component\<close> and \<^verbatim>\<open>hook\<close>, then the comment "... and so on"); for every other code
  file it deletes under the type \<^verbatim>\<open>unknown\<close>, while \<^verbatim>\<open>create_metadata\<close> names the
  vectors with \<^verbatim>\<open>context\<close>, \<^verbatim>\<open>utility\<close>, \<^verbatim>\<open>service\<close>, \<^verbatim>\<open>type_definition\<close> or
  \<^verbatim>\<open>code\<close>. The theorem runs the indexer on the file \<^verbatim>\<open>utils/a.ts\<close>, indexed before
  as two chunks and now one chunk long, with a changed hash and every call succeeding. The
  run succeeds and writes the new hash; its delete call names the 49 identifiers
  \<^verbatim>\<open>usergroupchatcontext-unknown-a.ts-chunk-1 .. 49\<close>; it upserts
  \<^verbatim>\<open>usergroupchatcontext-context-a.ts-chunk-1\<close>; and the old second chunk
  \<^verbatim>\<open>usergroupchatcontext-context-a.ts-chunk-2\<close> is still stored with its old values, so
  the identifiers of the file after the run are not \<open>prefix-chunk-1 .. prefix-chunk-1\<close>.
\<close>

theorem stale_vectors_survive:
  "delete_prefix example_path = ''usergroupchatcontext-unknown-a.ts'' \<and>
   base_doc_id_of example_world example_path = ''usergroupchatcontext-context-a.ts'' \<and>
   run_summary example_world example_path False example_state
     [''usergroupchatcontext-context-a.ts-chunk-1'', ''usergroupchatcontext-context-a.ts-chunk-2'']
   = Some (True,
           [DeleteCall (map (doc_id ''usergroupchatcontext-unknown-a.ts'') [0 ..< 49]) True,
            EmbedCall ''export const a = 1;'' True,
            UpsertCall [''usergroupchatcontext-context-a.ts-chunk-1''] True],
           [Some [1, 2], Some [3, 4]], Some ''H2'')"
  by code_simp

subsection \<open>C2: the ledger is written only after a complete success\<close>

text \<open>
  Claim C2. For every file that \<^verbatim>\<open>index_file\<close> processes, the ledger entry of the file
  is written with the current content hash only if every chunk of the file was embedded
  and upserted without error; if the embedding of any chunk or any upsert batch fails, the
  ledger is left exactly as it was before, so that the file is tried again as a whole by
  the next run.

  The part on the ledger holds as the claim states it; the retry holds when the entry that
  is left is not the current hash. In the theorem \<open>new\<close> are the calls that the run adds
  to the log. \<^verbatim>\<open>index_file\<close> returns; if one of the new embedding or upsert calls
  failed, the result is \<open>False\<close> and the ledger is the one before the run; the ledger is
  either the one before the run, or the result is \<open>True\<close>, no call failed, the ledger
  differs only in the entry of this file, which is the current hash, every chunk of the
  content was sent to the provider, and the identifier of every chunk is in the store; and
  after a failure, a next run (in any world \<open>w2\<close>, not forced) in which the hash of the
  file is not the entry that the ledger had before deletes the vectors of the file again
  and submits every chunk of its content again.
\<close>

theorem ledger_updated_only_on_success:
  "\<exists>ok st' new.
     index_file w file_path force_update st = Some (ok, st') \<and>
     calls st' = calls st @ new \<and>
     (list_ex call_failed new \<longrightarrow> \<not> ok \<and> hash_storage st' = hash_storage st) \<and>
     (hash_storage st' = hash_storage st \<or>
      ok \<and> \<not> list_ex call_failed new \<and>
      hash_storage st' = (hash_storage st)(file_path \<mapsto> get_file_hash w file_path) \<and>
      (\<exists>chunks.
         chunk_text (read_file_content w file_path) CHUNK_SIZE CHUNK_OVERLAP = Some chunks \<and>
         embed_texts new = chunks \<and>
         (\<forall>k<length chunks. doc_id (base_doc_id_of w file_path) k \<in> dom (store st')))) \<and>
     (list_ex call_failed new \<and> hash_storage st file_path \<noteq> Some (get_file_hash w2 file_path) \<longrightarrow>
        (\<exists>chunks2 ok2 st2 deleted new2.
           chunk_text (read_file_content w2 file_path) CHUNK_SIZE CHUNK_OVERLAP = Some chunks2 \<and>
           index_file w2 file_path False st' = Some (ok2, st2) \<and>
           calls st2 = calls st' @ DeleteCall (ids_to_delete file_path) deleted # new2 \<and>
           list_all (\<lambda>e. \<not> is_delete e) new2 \<and>
           (read_file_content w2 file_path \<noteq> [] \<longrightarrow> embed_texts new2 = chunks2)))"
proof -
  consider (filtered) "\<not> should_index_file file_path"
    | (unchanged) "should_index_file file_path" "\<not> force_update"
        "hash_storage st file_path = Some (get_file_hash w file_path)"
    | (empty) "should_index_file file_path"
        "force_update \<or> hash_storage st file_path \<noteq> Some (get_file_hash w file_path)"
        "read_file_content w file_path = []"
    | (processed) "should_index_file file_path"
        "force_update \<or> hash_storage st file_path \<noteq> Some (get_file_hash w file_path)"
        "read_file_content w file_path \<noteq> []"
    by blast
  then show ?thesis
  proof cases
    case filtered
    from index_file_not_indexable [OF filtered, of w force_update st] show ?thesis
      by (intro exI [of _ False] exI [of _ st] exI [of _ "[]"]) simp
  next
    case unchanged
    from index_file_unchanged [OF unchanged] show ?thesis
      by (intro exI [of _ True] exI [of _ st] exI [of _ "[]"]) simp
  next
    case empty
    from delete_file_vectors_effect [of w file_path st] obtain dels
      where d: "calls (delete_file_vectors w file_path st) = calls st @ dels"
        "list_all is_delete dels"
        "hash_storage (delete_file_vectors w file_path st) = hash_storage st" by blast
    from index_file_no_content [OF empty] d deletes_no_embed [OF d(2)] show ?thesis
      by (intro exI [of _ False] exI [of _ "delete_file_vectors w file_path st"] exI [of _ dels])
        simp
  next
    case processed
    from index_file_processed [OF processed] obtain chunks ok st' dels new
      where chunks: "chunk_text (read_file_content w file_path) CHUNK_SIZE CHUNK_OVERLAP = Some chunks"
        and run: "index_file w file_path force_update st = Some (ok, st')"
        and c: "calls st' = calls st @ dels @ new" and dels: "list_all is_delete dels"
        and texts: "embed_texts new = chunks"
        and ok: "ok = (\<not> list_ex call_failed new)"
        and h: "hash_storage st' =
          (if ok then (hash_storage st)(file_path \<mapsto> get_file_hash w file_path) else hash_storage st)"
        and s: "ok \<longrightarrow> (\<forall>k<length chunks. doc_id (base_doc_id_of w file_path) k \<in> dom (store st'))"
      by blast
    from deletes_no_embed [OF dels] have nf: "list_ex call_failed (dels @ new) = list_ex call_failed new"
      and t: "embed_texts (dels @ new) = embed_texts new"
      by (simp_all add: embed_texts_append)
    show ?thesis
    proof (cases ok)
      case True
      with chunks run c texts ok h s nf t show ?thesis
        by (intro exI [of _ True] exI [of _ st'] exI [of _ "dels @ new"]) auto
    next
      case False
      with h have same: "hash_storage st' = hash_storage st" by simp
      have retry: "\<exists>chunks2 ok2 st2 deleted new2.
           chunk_text (read_file_content w2 file_path) CHUNK_SIZE CHUNK_OVERLAP = Some chunks2 \<and>
           index_file w2 file_path False st' = Some (ok2, st2) \<and>
           calls st2 = calls st' @ DeleteCall (ids_to_delete file_path) deleted # new2 \<and>
           list_all (\<lambda>e. \<not> is_delete e) new2 \<and>
           (read_file_content w2 file_path \<noteq> [] \<longrightarrow> embed_texts new2 = chunks2)"
        if "hash_storage st file_path \<noteq> Some (get_file_hash w2 file_path)"
        using index_file_reindex [of file_path False st' w2] processed(1) that same by simp
      from False run c ok same nf retry show ?thesis
        by (intro exI [of _ False] exI [of _ st'] exI [of _ "dels @ new"]) simp
    qed
  qed
qed

theorem ledger_updated_only_on_success_witness:
  "\<exists>st' ok2 st2 new2.
     index_file (example_world\<lparr>embed := (\<lambda>history text. None)\<rparr>) example_doc True
       (indexed_before example_doc [0, 1]) = Some (False, st') \<and>
     hash_storage st' = hash_storage (indexed_before example_doc [0, 1]) \<and>
     index_file example_world example_doc False st' = Some (ok2, st2) \<and>
     embed_texts new2 = [''export const a = 1;'']"
proof -
  let ?w = "example_world\<lparr>embed := (\<lambda>history text. None)\<rparr>"
  let ?st = "indexed_before example_doc [0, 1]"
  have failed: "map_option fst (run_summary ?w example_doc True ?st []) = Some False"
    by code_simp
  have stale: "hash_storage ?st example_doc \<noteq> Some (get_file_hash example_world example_doc)"
    by (simp add: indexed_before_def example_world_def)
  have content: "read_file_content example_world example_doc = ''export const a = 1;''"
    by (simp add: read_file_content_eq example_world_def)
  have one: "chunk_text ''export const a = 1;'' CHUNK_SIZE CHUNK_OVERLAP = Some [''export const a = 1;'']"
    by (simp add: chunk_text_def chunk_pieces_def CHUNK_SIZE_def)
  from ledger_updated_only_on_success [of ?w example_doc True ?st example_world]
  obtain ok st' new where run: "index_file ?w example_doc True ?st = Some (ok, st')"
    and f: "list_ex call_failed new \<longrightarrow> \<not> ok \<and> hash_storage st' = hash_storage ?st"
    and u: "hash_storage st' = hash_storage ?st \<or>
        ok \<and> \<not> list_ex call_failed new \<and>
        hash_storage st' = (hash_storage ?st)(example_doc \<mapsto> get_file_hash ?w example_doc) \<and>
        (\<exists>chunks.
           chunk_text (read_file_content ?w example_doc) CHUNK_SIZE CHUNK_OVERLAP = Some chunks \<and>
           embed_texts new = chunks \<and>
           (\<forall>k<length chunks. doc_id (base_doc_id_of ?w example_doc) k \<in> dom (store st')))"
    and r: "list_ex call_failed new \<and>
        hash_storage ?st example_doc \<noteq> Some (get_file_hash example_world example_doc) \<longrightarrow>
        (\<exists>chunks2 ok2 st2 deleted new2.
           chunk_text (read_file_content example_world example_doc) CHUNK_SIZE CHUNK_OVERLAP = Some chunks2 \<and>
           index_file example_world example_doc False st' = Some (ok2, st2) \<and>
           calls st2 = calls st' @ DeleteCall (ids_to_delete example_doc) deleted # new2 \<and>
           list_all (\<lambda>e. \<not> is_delete e) new2 \<and>
           (read_file_content example_world example_doc \<noteq> [] \<longrightarrow> embed_texts new2 = chunks2))"
    by blast
  from failed run have nok: "\<not> ok" by (simp add: run_summary_def)
  with u have same: "hash_storage st' = hash_storage ?st" by blast
  from nok u have fl: "list_ex call_failed new \<or> hash_storage st' = hash_storage ?st" by blast
  show ?thesis
  proof (cases "list_ex call_failed new")
    case True
    with r stale obtain ok2 st2 new2
      where "index_file example_world example_doc False st' = Some (ok2, st2)"
        and "embed_texts new2 = [''export const a = 1;'']"
      unfolding content one by auto
    with run nok same show ?thesis by auto
  next
    case False
    from index_file_reindex [of example_doc False st' example_world] same stale
    obtain ok2 st2 new2
      where "index_file example_world example_doc False st' = Some (ok2, st2)"
        and "embed_texts new2 = [''export const a = 1;'']"
      unfolding content one using example_doc_indexed by auto
    with run nok same show ?thesis by auto
  qed
qed

text \<open>
  The file is not always tried again. A forced run (\<^verbatim>\<open>changed\<close> or \<^verbatim>\<open>all\<close>) also
  processes a file whose ledger entry already is the current hash. Below,
  \<^verbatim>\<open>README.md\<close> has the entry \<open>H2\<close> and one vector in the store; the forced run deletes
  the vector, the embedding fails, the result is \<open>False\<close> and the entry is still \<open>H2\<close>.
  The next run, not forced, then skips the file as unchanged: it returns \<open>True\<close>, makes
  no call, and the vector stays missing.
\<close>

theorem failed_forced_run_counterexample:
  "run_summary (example_world\<lparr>embed := (\<lambda>history text. None)\<rparr>) example_doc True
     ((indexed_before example_doc [0])\<lparr>hash_storage := [example_doc \<mapsto> ''H2'']\<rparr>)
     [''usergroupchatcontext-documentation-README.md-chunk-1'']
   = Some (False,
           [DeleteCall (ids_to_delete example_doc) True,
            EmbedCall ''export const a = 1;'' False],
           [None], Some ''H2'') \<and>
   run_twice (example_world\<lparr>embed := (\<lambda>history text. None)\<rparr>) True example_world False example_doc
     ((indexed_before example_doc [0])\<lparr>hash_storage := [example_doc \<mapsto> ''H2'']\<rparr>)
     [''usergroupchatcontext-documentation-README.md-chunk-1'']
   = Some (False, True,
           [DeleteCall (ids_to_delete example_doc) True,
            EmbedCall ''export const a = 1;'' False],
           [None], Some ''H2'')"
  by code_simp

subsection \<open>C3: an unchanged file is skipped\<close>

text \<open>
  Claim C3. For every candidate file whose current content hash equals the hash that the
  ledger stores for its path, a run that is not forced makes no call to the embedding
  provider and no call to the vector store (no delete, no upsert) for that file, and
  leaves the ledger entry of the file unchanged.

  \<^verbatim>\<open>index_file\<close> returns the state it was given: the log of calls, the store and the
  ledger are the same; and the run goes on to the next file from that state.
\<close>

theorem unchanged_file_skipped:
  assumes "hash_storage st file_path = Some (get_file_hash w file_path)"
  shows "index_file w file_path False st = Some (should_index_file file_path, st) \<and>
         index_files w False (file_path # files) (success_count, failure_count, st) =
           index_files w False files
             (if should_index_file file_path then success_count + 1 else success_count,
              if should_index_file file_path then failure_count else failure_count + 1, st)"
proof (cases "should_index_file file_path")
  case True
  from index_file_unchanged [OF True _ assms, of False] True show ?thesis by simp
next
  case False
  from index_file_not_indexable [OF False, of w False st] False show ?thesis by simp
qed

theorem unchanged_file_skipped_witness:
  "index_file example_world example_path False
     (example_state\<lparr>hash_storage := [example_path \<mapsto> ''H2'']\<rparr>)
   = Some (True, example_state\<lparr>hash_storage := [example_path \<mapsto> ''H2'']\<rparr>)"
  using unchanged_file_skipped
    [of "example_state\<lparr>hash_storage := [example_path \<mapsto> ''H2'']\<rparr>" example_path example_world]
    example_path_indexed
  by (simp add: example_world_def)

subsection \<open>C4: the chunker terminates\<close>



subsection \<open>C5: the breakpoint search\<close>

text \<open>
  Claim C5 says that each step of the chunker searches a window of width \<open>overlap\<close>
  centred on the candidate end offset, for a paragraph break, then a sentence break, then
  a line break, cuts hard at the candidate offset when none is found and then rewinds the
  cursor by the overlap, and otherwise moves the cursor to the breakpoint.

  The code searches \<^verbatim>\<open>text.find(sep, end - char_overlap, end + char_overlap)\<close>: the
  window reaches \<open>char_overlap\<close> characters to either side of the candidate offset, so
  its width is twice the overlap. The theorem is the claim with that width: for a cursor
  \<open>start \<ge> 0\<close>, parameters with \<open>0 \<le> overlap \<le> targetSize\<close> and a candidate offset
  before the end of the text, one iteration of the loop is the step the specification
  describes, for the window of width \<open>2 * (4 * overlap)\<close> characters. An occurrence counts
  when it lies wholly inside the window, the first one of the best kind is taken, and after
  a sentence break the cursor is just past the period.
\<close>

theorem chunk_step_window:
  assumes "0 \<le> start" and "0 \<le> overlap" and "overlap \<le> chunk_size"
    and "start + chunk_size * 4 < int (length text)"
  shows "chunk_step text (chunk_size * 4) (overlap * 4) start =
           window_step (2 * (overlap * 4)) text (chunk_size * 4) (overlap * 4) start"
  using assms by (intro chunk_step_window_chars) simp_all

theorem chunk_step_window_witness:
  "chunk_step ''aaaa\<newline>\<newline>bbbbbbbbbb'' 8 4 0 =
     Continue \<lparr>p_start = 0, p_stop = 4, p_cut = Paragraph, p_text = ''aaaa''\<rparr> 4"
  using chunk_step_window [of 0 1 2 "''aaaa\<newline>\<newline>bbbbbbbbbb''"]
  by (simp add: window_step_def first_in_window_def occurs_at_def py_strip_def py_slice_def
      clip_index_def is_space_def)

text \<open>
  With a window of width \<open>overlap\<close>, read in tokens (4 characters) or in characters, the
  claim fails: for \<open>targetSize = 2\<close> and \<open>overlap = 1\<close> the text below has its only
  paragraph break at offset 4, which is \<open>4 * overlap\<close> characters before the candidate
  offset 8. The code cuts there; a window of width 4 (or 1) around offset 8 does not
  hold it and gives a hard cut at offset 8.
\<close>

theorem window_width_overlap_counterexample:
  "chunk_step ''aaaa\<newline>\<newline>bbbbbbbbbb'' (2 * 4) (1 * 4) 0 \<noteq>
     window_step (1 * 4) ''aaaa\<newline>\<newline>bbbbbbbbbb'' (2 * 4) (1 * 4) 0 \<and>
   chunk_step ''aaaa\<newline>\<newline>bbbbbbbbbb'' (2 * 4) (1 * 4) 0 \<noteq>
     window_step 1 ''aaaa\<newline>\<newline>bbbbbbbbbb'' (2 * 4) (1 * 4) 0"
  by code_simp

subsection \<open>C6: the chunks cover the text\<close>

text \<open>
  Claim C6. For every text, the intervals \<open>[start, stop)\<close> from which \<^verbatim>\<open>chunk_text\<close>
  slices its chunks (before whitespace is trimmed) cover the offsets \<open>[0, len(text))\<close>
  with no gap: every interval begins at or before the end of the previous one, and the
  last interval ends at the end of the text.

  The theorem states this (\<open>covers_text\<close>) for every text twice: for all parameters
  with \<open>0 \<le> overlap < targetSize\<close>, and for the parameters 500 and 100 with which every
  caller in the repository runs the chunker. In both cases \<open>chunk_text\<close> returns.
\<close>

theorem chunk_text_covers:
  "(0 \<le> overlap \<and> overlap < chunk_size \<longrightarrow>
      (\<exists>ps. chunk_pieces text chunk_size overlap = Some ps \<and>
         chunk_text text chunk_size overlap = Some (map p_text ps) \<and> covers_text text ps)) \<and>
   (\<exists>ps. chunk_pieces text CHUNK_SIZE CHUNK_OVERLAP = Some ps \<and>
      chunk_text text CHUNK_SIZE CHUNK_OVERLAP = Some (map p_text ps) \<and> covers_text text ps)"
proof (intro conjI impI)
  assume "0 \<le> overlap \<and> overlap < chunk_size"
  then show "\<exists>ps. chunk_pieces text chunk_size overlap = Some ps \<and>
      chunk_text text chunk_size overlap = Some (map p_text ps) \<and> covers_text text ps"
    using chunk_pieces_cover [of overlap chunk_size "text"] by blast
next
  show "\<exists>ps. chunk_pieces text CHUNK_SIZE CHUNK_OVERLAP = Some ps \<and>
      chunk_text text CHUNK_SIZE CHUNK_OVERLAP = Some (map p_text ps) \<and> covers_text text ps"
    by (rule chunk_pieces_cover) (simp_all add: CHUNK_SIZE_def CHUNK_OVERLAP_def)
qed

theorem chunk_text_covers_witness:
  "\<exists>ps. chunk_pieces ''aaaabbbbccccddddeeeeffff'' 2 1 = Some ps \<and>
     p_start (hd ps) = 0 \<and> p_stop (last ps) = 24"
  using chunk_text_covers [of 1 2 "''aaaabbbbccccddddeeeeffff''"]
  by (auto simp: covers_text_def)

subsection \<open>C7: a failed embedding does not stop the file\<close>



subsection \<open>C8: a file that cannot be read\<close>




subsection \<open>C9: a short text is a single chunk\<close>

text \<open>
  Claim C9. For every text of at most \<open>4 * targetSize\<close> characters (\<open>targetSize\<close> being
  in tokens of four characters), \<^verbatim>\<open>chunk_text\<close> returns exactly the one-element list
  \<open>[text]\<close>, the input unchanged, neither truncated nor trimmed; a text of 50 characters
  with a target of 500 tokens (2000 characters) is a single chunk, and the identifier of
  that chunk ends in \<^verbatim>\<open>-chunk-1\<close>.
\<close>

theorem chunk_text_short:
  assumes "int (length text) \<le> 4 * chunk_size"
  shows "chunk_text text chunk_size overlap = Some [text] \<and>
         map (\<lambda>(i, chunk). doc_id base_doc_id i) (enumerate 0 [text]) = [base_doc_id @ ''-chunk-1'']"
  using assms by (simp add: chunk_text_def chunk_pieces_def doc_id_def str_nat.simps)

theorem chunk_text_short_witness:
  "chunk_text ''export const answer = 42; // fifty characters long'' 500 100
     = Some [''export const answer = 42; // fifty characters long''] \<and>
   length ''export const answer = 42; // fifty characters long'' = 50"
  using chunk_text_short [of "''export const answer = 42; // fifty characters long''" 500 100 "''x''"]
  by simp

subsection \<open>C10: the length of a chunk\<close>

text \<open>
  Claim C10 bounds every chunk by \<open>4 * (targetSize + overlap)\<close> characters when
  \<open>0 < overlap < targetSize\<close>: a breakpoint that was found lies at most \<open>4 * overlap\<close>
  characters past the candidate end offset, a hard cut ends exactly at the candidate
  offset, and the final remainder is shorter than \<open>4 * targetSize\<close> characters.

  The loop breaks when \<^verbatim>\<open>end >= len(text)\<close>, so the remainder can have exactly
  \<open>4 * targetSize\<close> characters. The theorem is the claim with "at most" for the
  remainder: every chunk is at most as long as its interval and at most
  \<open>4 * (targetSize + overlap)\<close> characters long; the interval of a chunk cut at a
  breakpoint ends at most \<open>4 * overlap\<close> characters past the candidate offset; the interval
  of a hard cut ends at the candidate offset; the remainder (and a text returned whole)
  reaches the end of the text and has at most \<open>4 * targetSize\<close> characters.
\<close>

theorem chunk_length_bound:
  assumes "0 < overlap" and "overlap < chunk_size"
  shows "\<exists>ps. chunk_pieces text chunk_size overlap = Some ps \<and>
           chunk_text text chunk_size overlap = Some (map p_text ps) \<and>
           (\<forall>p\<in>set ps.
              int (length (p_text p)) \<le> 4 * (chunk_size + overlap) \<and>
              int (length (p_text p)) \<le> p_stop p - p_start p \<and>
              (p_cut p \<in> {Paragraph, Sentence, Line} \<longrightarrow>
                 p_stop p \<le> p_start p + 4 * chunk_size + 4 * overlap) \<and>
              (p_cut p = Hard \<longrightarrow> p_stop p = p_start p + 4 * chunk_size) \<and>
              (p_cut p \<in> {Remainder, Whole} \<longrightarrow>
                 p_stop p = int (length text) \<and> p_stop p - p_start p \<le> 4 * chunk_size))"
proof (cases "int (length text) \<le> chunk_size * 4")
  case True
  from chunk_pieces_short [OF True] True assms show ?thesis
    by (simp add: chunk_text_def)
next
  case False
  with assms obtain ps where ps: "chunk_pieces text chunk_size overlap = Some ps"
    and f: "\<forall>p\<in>set ps. piece_facts text (chunk_size * 4) (overlap * 4) p"
    using chunk_pieces_long [of overlap chunk_size "text"] by auto
  have "int (length (p_text p)) \<le> 4 * (chunk_size + overlap) \<and>
        int (length (p_text p)) \<le> p_stop p - p_start p \<and>
        (p_cut p \<in> {Paragraph, Sentence, Line} \<longrightarrow>
           p_stop p \<le> p_start p + 4 * chunk_size + 4 * overlap) \<and>
        (p_cut p = Hard \<longrightarrow> p_stop p = p_start p + 4 * chunk_size) \<and>
        (p_cut p \<in> {Remainder, Whole} \<longrightarrow>
           p_stop p = int (length text) \<and> p_stop p - p_start p \<le> 4 * chunk_size)"
    if "p \<in> set ps" for p
  proof -
    from that f have pf: "piece_facts text (chunk_size * 4) (overlap * 4) p" by simp
    from assms have "0 \<le> overlap * 4" by simp
    from piece_facts_length [OF pf this]
    have len: "int (length (p_text p)) \<le> p_stop p - p_start p" .
    from pf have "p_stop p \<le> p_start p + chunk_size * 4 + overlap * 4"
      by (simp add: piece_facts_def)
    with len have "int (length (p_text p)) \<le> 4 * (chunk_size + overlap)" by simp
    with len pf show ?thesis
      by (auto simp: piece_facts_def)
  qed
  then have "\<forall>p\<in>set ps.
        int (length (p_text p)) \<le> 4 * (chunk_size + overlap) \<and>
        int (length (p_text p)) \<le> p_stop p - p_start p \<and>
        (p_cut p \<in> {Paragraph, Sentence, Line} \<longrightarrow>
           p_stop p \<le> p_start p + 4 * chunk_size + 4 * overlap) \<and>
        (p_cut p = Hard \<longrightarrow> p_stop p = p_start p + 4 * chunk_size) \<and>
        (p_cut p \<in> {Remainder, Whole} \<longrightarrow>
           p_stop p = int (length text) \<and> p_stop p - p_start p \<le> 4 * chunk_size)"
    by blast
  moreover from ps have "chunk_text text chunk_size overlap = Some (map p_text ps)"
    by (simp add: chunk_text_def)
  ultimately show ?thesis using ps by blast
qed

theorem chunk_length_bound_witness:
  "\<exists>ps. chunk_pieces ''aaaab. bbccccddd. eeeeffff'' 2 1 = Some ps \<and>
     (\<forall>p\<in>set ps. int (length (p_text p)) \<le> 12)"
  using chunk_length_bound [of 1 2 "''aaaab. bbccccddd. eeeeffff''"] by auto

text \<open>
  The remainder is not always shorter than \<open>4 * targetSize\<close>: with \<open>targetSize = 2\<close> and
  \<open>overlap = 1\<close> the text below is cut at the line break at offset 6, and the remainder
  has \<open>14 - 6 = 8 = 4 * targetSize\<close> characters.
\<close>

theorem remainder_full_size_counterexample:
  "chunk_pieces ''aaaaaa\<newline>bbbbbbb'' 2 1 =
     Some [\<lparr>p_start = 0, p_stop = 6, p_cut = Line, p_text = ''aaaaaa''\<rparr>,
           \<lparr>p_start = 6, p_stop = 14, p_cut = Remainder, p_text = ''\<newline>bbbbbbb''\<rparr>] \<and>
   \<not> int (length ''\<newline>bbbbbbb'') < 4 * 2"
  by code_simp

end
